theory Spec2Isabelle
  imports Main
begin

section \<open>The composer (compose.js)\<close>

text \<open>
  \<^verbatim>\<open>compose(...funcs)\<close> receives its functions as an array. With no function it returns
  \<^verbatim>\<open>arg => arg\<close>, with one function it returns \<^verbatim>\<open>funcs[0]\<close> itself, and otherwise
  \<^verbatim>\<open>funcs.reduce((a, b) => (...args) => a(b(...args)))\<close>: a left fold without initial value,
  which starts from the first element and runs over the rest.
\<close>

definition compose :: "('a \<Rightarrow> 'a) list \<Rightarrow> 'a \<Rightarrow> 'a" where
  "compose funcs =
     (if length funcs = 0 then (\<lambda>arg. arg)
      else if length funcs = 1 then funcs ! 0
      else foldl (\<lambda>a b. (\<lambda>args. a (b args))) (hd funcs) (tl funcs))"


section \<open>Values, errors and callbacks\<close>

text \<open>
  JavaScript values that can be a state or an action. \<open>VObject\<close> is an object literal with
  its own enumerable fields; \<open>VExotic\<close> stands for every other object (an array, a class
  instance, a promise, a function passed where data is expected).
\<close>

datatype jsval =
    VUndefined
  | VNull
  | VBool bool
  | VNum int
  | VStr string
  | VObject "(string \<times> jsval) list"
  | VExotic nat

text \<open>An argument that the code tests with \<^verbatim>\<open>typeof x === 'function'\<close>.\<close>

datatype 'f jsarg = Fn 'f | Val jsval

text \<open>Every \<^verbatim>\<open>throw\<close> of createStore.js and applyMiddleware.js, and what user code throws.\<close>

datatype error =
    ExpectedEnhancerFunction
  | ExpectedReducerFunction
  | GetStateWhileReducing
  | ExpectedListenerFunction
  | SubscribeWhileReducing
  | UnsubscribeWhileReducing
  | ActionsMustBePlainObjects
  | UndefinedActionType
  | ReducersMayNotDispatch
  | ExpectedNextReducerFunction
  | DispatchWhileConstructing
  | NotAFunction
  | UserError string

text \<open>
  Listeners and reducers are user code that may call back into the store. A callback is a
  script of store calls: a listener is a function object (its identity is the number) with a
  body; a reducer runs a script and then computes the next state with a function that may
  throw. \<open>CTry c\<close> is \<^verbatim>\<open>try { c } catch (e) {}\<close>. \<open>CUnsubscribe h\<close> calls the
  function returned by the \<open>h\<close>-th call of \<^verbatim>\<open>subscribe\<close>.
\<close>

datatype cmd =
    CGetState
  | CSubscribe "listener jsarg"
  | CUnsubscribe nat
  | CDispatch jsval
  | CReplaceReducer "reducer jsarg"
  | CThrow string
  | CTry cmd
and listener = Listener nat "cmd list"
and reducer = Reducer "cmd list" "jsval \<Rightarrow> jsval \<Rightarrow> error + jsval"

section \<open>The helpers under utils/\<close>

text \<open>
  Modelled from the spec: \<^verbatim>\<open>utils/isPlainObject\<close> is not among the sources; the spec
  calls its positive case "a plain structured record".
\<close>

fun isPlainObject :: "jsval \<Rightarrow> bool" where
  "isPlainObject (VObject fields) = True"
| "isPlainObject _ = False"

text \<open>
  Modelled from the spec: \<^verbatim>\<open>utils/actionTypes\<close> is not among the sources; the spec names
  the two reserved types \<^verbatim>\<open>@@redux/INIT\<close> and \<^verbatim>\<open>@@redux/REPLACE\<close>.
\<close>

definition ActionTypes_INIT :: jsval where
  "ActionTypes_INIT = VStr ''@@redux/INIT''"

definition ActionTypes_REPLACE :: jsval where
  "ActionTypes_REPLACE = VStr ''@@redux/REPLACE''"

text \<open>Property access \<^verbatim>\<open>action.type\<close>: a missing property reads as \<^verbatim>\<open>undefined\<close>.\<close>

fun getProp :: "jsval \<Rightarrow> string \<Rightarrow> jsval" where
  "getProp (VObject fields) k = (case map_of fields k of None \<Rightarrow> VUndefined | Some v \<Rightarrow> v)"
| "getProp _ k = VUndefined"

text \<open>
  \<^verbatim>\<open>===\<close> on two function objects compares their identity, not their code.
\<close>

fun sameFunction :: "listener \<Rightarrow> listener \<Rightarrow> bool" where
  "sameFunction (Listener i body) (Listener j body') = (i = j)"

text \<open>\<^verbatim>\<open>Array.prototype.indexOf\<close>: the first index of the element, or \<open>-1\<close>.\<close>

fun indexOf :: "listener list \<Rightarrow> listener \<Rightarrow> int" where
  "indexOf [] x = -1"
| "indexOf (y # ys) x =
     (if sameFunction y x then 0
      else (let i = indexOf ys x in if i < 0 then -1 else i + 1))"

text \<open>
  \<^verbatim>\<open>xs.splice(index, 1)\<close>: a negative start counts from the end (and stops at 0), a start
  beyond the end is the end; one element is removed from there, if there is one.
\<close>

definition splice1 :: "int \<Rightarrow> 'a list \<Rightarrow> 'a list" where
  "splice1 index xs =
     (let n = int (length xs);
          start = (if index < 0 then max (n + index) 0 else min index n)
      in take (nat start) xs @ drop (Suc (nat start)) xs)"

section \<open>The state container (createStore.js)\<close>

text \<open>
  The variables closed over by the functions of one store. \<open>currentListeners\<close> and
  \<open>nextListeners\<close> are references to arrays, so the arrays live in a heap \<open>arrays\<close>
  indexed by address, and \<open>arrayCount\<close> is the next unused address. \<open>subscriptions\<close>
  holds the closures returned by \<^verbatim>\<open>subscribe\<close>: the listener each one captured and its
  \<^verbatim>\<open>isSubscribed\<close> flag. \<open>notified\<close> is a log, not in the source: the identity of every
  listener called, in call order.
\<close>

record store =
  currentReducer :: reducer
  currentState :: jsval
  currentListeners :: nat
  nextListeners :: nat
  isDispatching :: bool
  arrays :: "nat \<Rightarrow> listener list"
  arrayCount :: nat
  subscriptions :: "(listener \<times> bool) list"
  notified :: "nat list"

text \<open>
  A call either throws or returns, and leaves a store behind in both cases.
  Calls that can run user code take fuel and give \<open>None\<close> when it runs out.
\<close>

type_synonym 'a outcome = "(error + 'a) \<times> store"
type_synonym 'a res = "'a outcome option"

definition andThen :: "'a res \<Rightarrow> ('a \<Rightarrow> store \<Rightarrow> 'b res) \<Rightarrow> 'b res" where
  "andThen m k =
     (case m of
        None \<Rightarrow> None
      | Some (Inl e, s) \<Rightarrow> Some (Inl e, s)
      | Some (Inr v, s) \<Rightarrow> k v s)"

definition ensureCanMutateNextListeners :: "store \<Rightarrow> store" where
  "ensureCanMutateNextListeners s =
     (if nextListeners s = currentListeners s
      then s\<lparr>arrays := (arrays s)(arrayCount s := arrays s (currentListeners s)),
             nextListeners := arrayCount s,
             arrayCount := Suc (arrayCount s)\<rparr>
      else s)"

definition getState :: "store \<Rightarrow> jsval outcome" where
  "getState s =
     (if isDispatching s then (Inl GetStateWhileReducing, s)
      else (Inr (currentState s), s))"

text \<open>\<^verbatim>\<open>subscribe\<close> returns the index of the new closure in \<open>subscriptions\<close>.\<close>

definition subscribe :: "listener jsarg \<Rightarrow> store \<Rightarrow> nat outcome" where
  "subscribe l s =
     (case l of
        Val v \<Rightarrow> (Inl ExpectedListenerFunction, s)
      | Fn f \<Rightarrow>
          if isDispatching s then (Inl SubscribeWhileReducing, s)
          else
            (let s1 = ensureCanMutateNextListeners s;
                 s2 = s1\<lparr>arrays := (arrays s1)
                          (nextListeners s1 := arrays s1 (nextListeners s1) @ [f])\<rparr>
             in (Inr (length (subscriptions s2)),
                 s2\<lparr>subscriptions := subscriptions s2 @ [(f, True)]\<rparr>)))"

text \<open>Calling a handle that no \<^verbatim>\<open>subscribe\<close> returned is calling a non-function.\<close>

definition unsubscribe :: "nat \<Rightarrow> store \<Rightarrow> unit outcome" where
  "unsubscribe h s =
     (if length (subscriptions s) \<le> h then (Inl NotAFunction, s)
      else
        (let (f, isSubscribed) = subscriptions s ! h in
         if \<not> isSubscribed then (Inr (), s)
         else if isDispatching s then (Inl UnsubscribeWhileReducing, s)
         else
           (let s1 = s\<lparr>subscriptions := (subscriptions s)[h := (f, False)]\<rparr>;
                s2 = ensureCanMutateNextListeners s1;
                index = indexOf (arrays s2 (nextListeners s2)) f
            in (Inr (),
                s2\<lparr>arrays := (arrays s2)
                     (nextListeners s2 := splice1 index (arrays s2 (nextListeners s2)))\<rparr>))))"

text \<open>
  The functions that run user code call each other: \<^verbatim>\<open>dispatch\<close> calls the reducer and
  the listeners, which may call \<^verbatim>\<open>dispatch\<close>, \<^verbatim>\<open>subscribe\<close> and the others.
  Each is written over the interpreter \<open>self\<close> of the calls it makes; \<open>exec\<close> below closes
  the recursion, with fuel. A JavaScript function without \<^verbatim>\<open>return\<close> value returns
  \<^verbatim>\<open>undefined\<close>.
\<close>

datatype call =
    Dispatch jsval
  | Notify nat nat
  | CallListener listener
  | CallReducer reducer jsval jsval
  | RunScript "cmd list"
  | RunCmd cmd
  | ReplaceReducer "reducer jsarg"

type_synonym interp = "call \<Rightarrow> store \<Rightarrow> jsval res"

definition dispatchBody :: "interp \<Rightarrow> jsval \<Rightarrow> store \<Rightarrow> jsval res" where
  "dispatchBody self action s =
     (if \<not> isPlainObject action then Some (Inl ActionsMustBePlainObjects, s)
      else if getProp action ''type'' = VUndefined then Some (Inl UndefinedActionType, s)
      else if isDispatching s then Some (Inl ReducersMayNotDispatch, s)
      else
        (case self (CallReducer (currentReducer s) (currentState s) action)
                (s\<lparr>isDispatching := True\<rparr>) of
           None \<Rightarrow> None
         | Some (Inl e, s1) \<Rightarrow> Some (Inl e, s1\<lparr>isDispatching := False\<rparr>)
         | Some (Inr v, s1) \<Rightarrow>
             (let s2 = s1\<lparr>currentState := v\<rparr>;
                  s3 = s2\<lparr>isDispatching := False\<rparr>;
                  s4 = s3\<lparr>currentListeners := nextListeners s3\<rparr>
              in andThen (self (Notify (currentListeners s4) 0) s4)
                   (\<lambda>u s5. Some (Inr action, s5)))))"

text \<open>
  The loop \<^verbatim>\<open>for (let i = 0; i < listeners.length; i++) listeners[i]()\<close> at index \<open>i\<close>,
  where \<^verbatim>\<open>listeners\<close> is the array at address \<open>a\<close>, read again at every step.
\<close>

definition notifyBody :: "interp \<Rightarrow> nat \<Rightarrow> nat \<Rightarrow> store \<Rightarrow> jsval res" where
  "notifyBody self a i s =
     (if i < length (arrays s a)
      then andThen (self (CallListener (arrays s a ! i)) s)
             (\<lambda>u s1. self (Notify a (Suc i)) s1)
      else Some (Inr VUndefined, s))"

fun callListenerBody :: "interp \<Rightarrow> listener \<Rightarrow> store \<Rightarrow> jsval res" where
  "callListenerBody self (Listener ident body) s =
     self (RunScript body) (s\<lparr>notified := notified s @ [ident]\<rparr>)"

fun callReducerBody :: "interp \<Rightarrow> reducer \<Rightarrow> jsval \<Rightarrow> jsval \<Rightarrow> store \<Rightarrow> jsval res" where
  "callReducerBody self (Reducer body f) st action s =
     andThen (self (RunScript body) s)
       (\<lambda>u s1. case f st action of
                  Inl e \<Rightarrow> Some (Inl e, s1)
                | Inr v \<Rightarrow> Some (Inr v, s1))"

fun runScriptBody :: "interp \<Rightarrow> cmd list \<Rightarrow> store \<Rightarrow> jsval res" where
  "runScriptBody self [] s = Some (Inr VUndefined, s)"
| "runScriptBody self (c # cs) s =
     andThen (self (RunCmd c) s) (\<lambda>u s1. self (RunScript cs) s1)"

fun runCmdBody :: "interp \<Rightarrow> cmd \<Rightarrow> store \<Rightarrow> jsval res" where
  "runCmdBody self CGetState s = Some (getState s)"
| "runCmdBody self (CSubscribe l) s =
     (case subscribe l s of
        (Inl e, s1) \<Rightarrow> Some (Inl e, s1)
      | (Inr h, s1) \<Rightarrow> Some (Inr VUndefined, s1))"
| "runCmdBody self (CUnsubscribe h) s =
     (case unsubscribe h s of
        (Inl e, s1) \<Rightarrow> Some (Inl e, s1)
      | (Inr u, s1) \<Rightarrow> Some (Inr VUndefined, s1))"
| "runCmdBody self (CDispatch action) s = self (Dispatch action) s"
| "runCmdBody self (CReplaceReducer r) s = self (ReplaceReducer r) s"
| "runCmdBody self (CThrow msg) s = Some (Inl (UserError msg), s)"
| "runCmdBody self (CTry c) s =
     (case self (RunCmd c) s of
        None \<Rightarrow> None
      | Some (r, s1) \<Rightarrow> Some (Inr VUndefined, s1))"

definition replaceReducerBody :: "interp \<Rightarrow> reducer jsarg \<Rightarrow> store \<Rightarrow> jsval res" where
  "replaceReducerBody self nextReducer s =
     (case nextReducer of
        Val v \<Rightarrow> Some (Inl ExpectedNextReducerFunction, s)
      | Fn r \<Rightarrow>
          andThen (self (Dispatch (VObject [(''type'', ActionTypes_REPLACE)]))
                     (s\<lparr>currentReducer := r\<rparr>))
            (\<lambda>v s1. Some (Inr VUndefined, s1)))"

fun step :: "interp \<Rightarrow> interp" where
  "step self (Dispatch action) = dispatchBody self action"
| "step self (Notify a i) = notifyBody self a i"
| "step self (CallListener l) = callListenerBody self l"
| "step self (CallReducer r st action) = callReducerBody self r st action"
| "step self (RunScript cs) = runScriptBody self cs"
| "step self (RunCmd c) = runCmdBody self c"
| "step self (ReplaceReducer r) = replaceReducerBody self r"

text \<open>\<open>exec n\<close> runs a call with call depth at most \<open>n\<close>; \<open>None\<close> is "out of fuel".\<close>

primrec exec :: "nat \<Rightarrow> interp" where
  "exec 0 = (\<lambda>c s. None)"
| "exec (Suc n) = step (exec n)"

definition dispatch :: "nat \<Rightarrow> jsval \<Rightarrow> store \<Rightarrow> jsval res" where
  "dispatch n action = exec n (Dispatch action)"

definition replaceReducer :: "nat \<Rightarrow> reducer jsarg \<Rightarrow> store \<Rightarrow> jsval res" where
  "replaceReducer n nextReducer = exec n (ReplaceReducer nextReducer)"

definition notify :: "nat \<Rightarrow> nat \<Rightarrow> nat \<Rightarrow> store \<Rightarrow> jsval res" where
  "notify n a i = exec n (Notify a i)"

definition callListener :: "nat \<Rightarrow> listener \<Rightarrow> store \<Rightarrow> jsval res" where
  "callListener n l = exec n (CallListener l)"

definition callReducer :: "nat \<Rightarrow> reducer \<Rightarrow> jsval \<Rightarrow> jsval \<Rightarrow> store \<Rightarrow> jsval res" where
  "callReducer n r st action = exec n (CallReducer r st action)"

definition runScript :: "nat \<Rightarrow> cmd list \<Rightarrow> store \<Rightarrow> jsval res" where
  "runScript n cs = exec n (RunScript cs)"


text \<open>
  The rest of \<^verbatim>\<open>createStore\<close> once the arguments are sorted out (from the check of the
  reducer on): the variables are initialised, both listener references point at the same
  empty array, \<^verbatim>\<open>{ type: ActionTypes.INIT }\<close> is dispatched, and the store is returned.
  The script of a reducer runs against the store during this dispatch too, although user
  code holds no reference to the store before \<^verbatim>\<open>createStore\<close> returns: for a reducer
  that calls the store, the model allows more than the code at this point.
\<close>

definition initialStore :: "reducer \<Rightarrow> jsval \<Rightarrow> store" where
  "initialStore reducer preloadedState =
     \<lparr>currentReducer = reducer, currentState = preloadedState,
      currentListeners = 0, nextListeners = 0, isDispatching = False,
      arrays = (\<lambda>a. []), arrayCount = 1, subscriptions = [], notified = []\<rparr>"

definition createStoreBase :: "nat \<Rightarrow> reducer jsarg \<Rightarrow> jsval \<Rightarrow> (error + store) option" where
  "createStoreBase n reducer preloadedState =
     (case reducer of
        Val v \<Rightarrow> Some (Inl ExpectedReducerFunction)
      | Fn r \<Rightarrow>
          (case dispatch n (VObject [(''type'', ActionTypes_INIT)])
                  (initialStore r preloadedState) of
             None \<Rightarrow> None
           | Some (Inl e, s) \<Rightarrow> Some (Inl e)
           | Some (Inr v, s) \<Rightarrow> Some (Inr s)))"

section \<open>The middleware pipeline (applyMiddleware.js)\<close>

text \<open>
  The closure of one enhanced store: the base store and the local variable \<^verbatim>\<open>dispatch\<close>,
  which holds the throwing placeholder until the composed dispatch is assigned to it
  (\<open>installed\<close>).
\<close>

record mstore =
  base :: store
  installed :: bool

type_synonym 'a mres = "((error + 'a) \<times> mstore) option"
type_synonym dispatchFn = "jsval \<Rightarrow> mstore \<Rightarrow> jsval mres"

record middlewareAPI =
  apiGetState :: "mstore \<Rightarrow> jsval mres"
  apiDispatch :: dispatchFn

text \<open>
  What a middleware factory does with the capability object while it is instantiated:
  a script of calls, as for listeners.
\<close>

datatype mcmd =
    MGetState
  | MDispatch jsval
  | MThrow string
  | MTry mcmd

text \<open>
  A middleware \<^verbatim>\<open>api => next => action => ...\<close>: the body run by the call
  \<^verbatim>\<open>middleware(middlewareAPI)\<close>, and the function \<^verbatim>\<open>next => action => ...\<close> it returns.
\<close>

record middleware =
  construct :: "mcmd list"
  wrap :: "middlewareAPI \<Rightarrow> dispatchFn \<Rightarrow> dispatchFn"

definition storeDispatch :: "nat \<Rightarrow> dispatchFn" where
  "storeDispatch n action m =
     (case dispatch n action (base m) of
        None \<Rightarrow> None
      | Some (r, s) \<Rightarrow> Some (r, m\<lparr>base := s\<rparr>))"

definition storeGetState :: "mstore \<Rightarrow> jsval mres" where
  "storeGetState m = (case getState (base m) of (r, s) \<Rightarrow> Some (r, m\<lparr>base := s\<rparr>))"

definition placeholder :: dispatchFn where
  "placeholder action m = Some (Inl DispatchWhileConstructing, m)"

text \<open>
  \<^verbatim>\<open>(...args) => dispatch(...args)\<close> calls what the variable holds at the time of the call:
  the placeholder, or the function \<open>d\<close> assigned later.
\<close>

definition forwarder :: "dispatchFn \<Rightarrow> dispatchFn" where
  "forwarder d action m = (if installed m then d action m else placeholder action m)"

definition mkMiddlewareAPI :: "dispatchFn \<Rightarrow> middlewareAPI" where
  "mkMiddlewareAPI d = \<lparr>apiGetState = storeGetState, apiDispatch = forwarder d\<rparr>"

text \<open>
  \<^verbatim>\<open>compose(...chain)(store.dispatch)\<close>, where the wrappers of the chain hold the capability
  object, whose forwarder calls this very function once it is assigned: the fuel bounds
  the depth of that recursion and of the base dispatch.
\<close>

primrec composedDispatch :: "nat \<Rightarrow> middleware list \<Rightarrow> dispatchFn" where
  "composedDispatch 0 middlewares = (\<lambda>action m. None)"
| "composedDispatch (Suc n) middlewares =
     compose (map (\<lambda>middleware. wrap middleware
                     (mkMiddlewareAPI (composedDispatch n middlewares))) middlewares)
       (storeDispatch n)"

fun runFactoryCmd :: "middlewareAPI \<Rightarrow> mcmd \<Rightarrow> mstore \<Rightarrow> jsval mres" where
  "runFactoryCmd api MGetState m = apiGetState api m"
| "runFactoryCmd api (MDispatch action) m = apiDispatch api action m"
| "runFactoryCmd api (MThrow msg) m = Some (Inl (UserError msg), m)"
| "runFactoryCmd api (MTry c) m =
     (case runFactoryCmd api c m of
        None \<Rightarrow> None
      | Some (r, m1) \<Rightarrow> Some (Inr VUndefined, m1))"

fun runFactory :: "middlewareAPI \<Rightarrow> mcmd list \<Rightarrow> mstore \<Rightarrow> jsval mres" where
  "runFactory api [] m = Some (Inr VUndefined, m)"
| "runFactory api (c # cs) m =
     (case runFactoryCmd api c m of
        None \<Rightarrow> None
      | Some (Inl e, m1) \<Rightarrow> Some (Inl e, m1)
      | Some (Inr v, m1) \<Rightarrow> runFactory api cs m1)"

text \<open>\<^verbatim>\<open>middlewares.map(middleware => middleware(middlewareAPI))\<close>: the factories run in order.\<close>

fun instantiate :: "middlewareAPI \<Rightarrow> middleware list \<Rightarrow> mstore \<Rightarrow> jsval mres" where
  "instantiate api [] m = Some (Inr VUndefined, m)"
| "instantiate api (middleware # rest) m =
     (case runFactory api (construct middleware) m of
        None \<Rightarrow> None
      | Some (Inl e, m1) \<Rightarrow> Some (Inl e, m1)
      | Some (Inr v, m1) \<Rightarrow> instantiate api rest m1)"

text \<open>The returned object \<^verbatim>\<open>{ ...store, dispatch }\<close>.\<close>

record enhanced =
  enhState :: mstore
  enhDispatch :: dispatchFn

type_synonym createStoreFn = "reducer jsarg \<Rightarrow> jsval \<Rightarrow> (error + store) option"
type_synonym enhancer = "createStoreFn \<Rightarrow> reducer jsarg \<Rightarrow> jsval \<Rightarrow> (error + enhanced) option"

definition applyMiddleware :: "nat \<Rightarrow> middleware list \<Rightarrow> enhancer" where
  "applyMiddleware n middlewares createStore reducer preloadedState =
     (case createStore reducer preloadedState of
        None \<Rightarrow> None
      | Some (Inl e) \<Rightarrow> Some (Inl e)
      | Some (Inr store) \<Rightarrow>
          (let m0 = \<lparr>base = store, installed = False\<rparr>;
               middlewareAPI = mkMiddlewareAPI (composedDispatch n middlewares)
           in case instantiate middlewareAPI middlewares m0 of
                None \<Rightarrow> None
              | Some (Inl e, m1) \<Rightarrow> Some (Inl e)
              | Some (Inr v, m1) \<Rightarrow>
                  Some (Inr \<lparr>enhState = m1\<lparr>installed := True\<rparr>,
                             enhDispatch = composedDispatch (Suc n) middlewares\<rparr>)))"

section \<open>Construction (createStore.js, the head of \<^verbatim>\<open>createStore\<close>)\<close>

datatype created = Plain store | Enhanced enhanced

fun isUndefined :: "'f jsarg \<Rightarrow> bool" where
  "isUndefined (Val VUndefined) = True"
| "isUndefined _ = False"

fun isFunction :: "'f jsarg \<Rightarrow> bool" where
  "isFunction (Fn f) = True"
| "isFunction (Val v) = False"

text \<open>A function in the place of the preloaded state is opaque data for what receives it.\<close>

fun asData :: "'f jsarg \<Rightarrow> jsval" where
  "asData (Val v) = v"
| "asData (Fn f) = VExotic 0"

text \<open>
  \<^verbatim>\<open>createStore(reducer, preloadedState, enhancer)\<close>. The source hands \<^verbatim>\<open>createStore\<close>
  itself to the enhancer; here the enhancer receives the constructor without enhancer,
  \<open>createStoreBase\<close>, so an enhancer that calls \<^verbatim>\<open>createStore\<close> with a further enhancer
  (as \<^verbatim>\<open>createStore(reducer, f, g)\<close> with two functions leads to) is not covered.
\<close>

definition createStore ::
  "nat \<Rightarrow> reducer jsarg \<Rightarrow> enhancer jsarg \<Rightarrow> enhancer jsarg \<Rightarrow> (error + created) option" where
  "createStore n reducer preloadedState0 enhancer0 =
     (let swap = isFunction preloadedState0 \<and> isUndefined enhancer0;
          enhancer = (if swap then preloadedState0 else enhancer0);
          preloadedState = (if swap then Val VUndefined else preloadedState0)
      in if \<not> isUndefined enhancer then
           (case enhancer of
              Val v \<Rightarrow> Some (Inl ExpectedEnhancerFunction)
            | Fn f \<Rightarrow> map_option (map_sum (\<lambda>e. e) Enhanced)
                       (f (createStoreBase n) reducer (asData preloadedState)))
         else map_option (map_sum (\<lambda>e. e) Plain)
                (createStoreBase n reducer (asData preloadedState)))"

section \<open>Invariants of the listener registry\<close>

text \<open>
  Arrays are allocated at increasing addresses, and the array written by
  \<^verbatim>\<open>subscribe\<close> and \<^verbatim>\<open>unsubscribe\<close> is never older than the one being notified.
\<close>

definition wellFormed :: "store \<Rightarrow> bool" where
  "wellFormed s = (currentListeners s \<le> nextListeners s \<and> nextListeners s < arrayCount s)"

text \<open>\<open>ext s s'\<close>: from \<open>s\<close> to \<open>s'\<close> no array as old as the current one of \<open>s\<close> was written.\<close>

definition ext :: "store \<Rightarrow> store \<Rightarrow> bool" where
  "ext s s' = (wellFormed s' \<and> currentListeners s \<le> currentListeners s' \<and>
      (\<forall>a. a \<le> currentListeners s \<longrightarrow> arrays s' a = arrays s a))"

definition preserving :: "interp \<Rightarrow> bool" where
  "preserving self = (\<forall>c s r s'. self c s = Some (r, s') \<longrightarrow> wellFormed s \<longrightarrow> ext s s')"

text \<open>
  Follows the spec's words: the listeners of a snapshot are invoked one after the other, in
  the order of the list, each once; the list is fixed when the pass starts.
\<close>

fun notifySnapshot :: "nat \<Rightarrow> listener list \<Rightarrow> store \<Rightarrow> jsval res" where
  "notifySnapshot 0 ls s = None"
| "notifySnapshot (Suc n) [] s = Some (Inr VUndefined, s)"
| "notifySnapshot (Suc n) (l # ls) s =
     andThen (callListener n l s) (\<lambda>u s1. notifySnapshot n ls s1)"

text \<open>The calls that a reducer can make, directly or not.\<close>

fun reducerCall :: "call \<Rightarrow> bool" where
  "reducerCall (Notify a i) = False"
| "reducerCall (CallListener l) = False"
| "reducerCall c = True"

definition onlyReducer :: "store \<Rightarrow> store \<Rightarrow> bool" where
  "onlyReducer s s' = (\<exists>rd. s' = s\<lparr>currentReducer := rd\<rparr>)"

definition frozen :: "interp \<Rightarrow> bool" where
  "frozen self = (\<forall>c s r s'. reducerCall c \<longrightarrow> isDispatching s \<longrightarrow> self c s = Some (r, s')
       \<longrightarrow> onlyReducer s s')"

definition refines :: "interp \<Rightarrow> interp \<Rightarrow> bool" where
  "refines self self' = (\<forall>c s x. self c s = Some x \<longrightarrow> self' c s = Some x)"

section \<open>An example store\<close>

text \<open>
  A counter, and the store after \<^verbatim>\<open>createStore(counter)\<close> and one
  \<^verbatim>\<open>subscribe\<close> of a listener that subscribes another listener when it is called.
\<close>

definition counter :: reducer where
  "counter = Reducer [] (\<lambda>st action.
      Inr (if getProp action ''type'' = VStr ''INC''
           then (case st of VNum k \<Rightarrow> VNum (k + 1) | _ \<Rightarrow> VNum 1)
           else (case st of VUndefined \<Rightarrow> VNum 0 | _ \<Rightarrow> st)))"

definition INC :: jsval where
  "INC = VObject [(''type'', VStr ''INC'')]"

definition lateListener :: listener where
  "lateListener = Listener 2 []"

definition subscribingListener :: listener where
  "subscribingListener = Listener 1 [CSubscribe (Fn lateListener)]"

definition exampleStore :: store where
  "exampleStore =
     \<lparr>currentReducer = counter, currentState = VNum 0,
      currentListeners = 0, nextListeners = 1, isDispatching = False,
      arrays = (\<lambda>a. [])(1 := [subscribingListener]), arrayCount = 2,
      subscriptions = [(subscribingListener, True)], notified = []\<rparr>"

section \<open>Listeners that start no transition\<close>

text \<open>
  A callback is quiet when it neither dispatches nor replaces the reducer; it may read the
  state, subscribe, unsubscribe and throw.
\<close>

fun quietCmd :: "cmd \<Rightarrow> bool" where
  "quietCmd (CDispatch action) = False"
| "quietCmd (CReplaceReducer r) = False"
| "quietCmd (CTry c) = quietCmd c"
| "quietCmd c = True"

fun quietCall :: "call \<Rightarrow> bool" where
  "quietCall (RunScript cs) = list_all quietCmd cs"
| "quietCall (RunCmd c) = quietCmd c"
| "quietCall c = False"

fun listenerId :: "listener \<Rightarrow> nat" where
  "listenerId (Listener ident body) = ident"

fun listenerBody :: "listener \<Rightarrow> cmd list" where
  "listenerBody (Listener ident body) = body"

definition quietListener :: "listener \<Rightarrow> bool" where
  "quietListener l = list_all quietCmd (listenerBody l)"

text \<open>\<open>sameCore s s'\<close>: the state, the reducer, the flag and the log are the same.\<close>

definition sameCore :: "store \<Rightarrow> store \<Rightarrow> bool" where
  "sameCore s s' = (currentState s' = currentState s \<and> currentReducer s' = currentReducer s \<and>
      isDispatching s' = isDispatching s \<and> notified s' = notified s)"

definition still :: "interp \<Rightarrow> bool" where
  "still self = (\<forall>c s r s'. quietCall c \<longrightarrow> self c s = Some (r, s') \<longrightarrow> sameCore s s')"

section \<open>Reading an outcome\<close>

definition returned :: "'a res \<Rightarrow> (error + 'a) option" where
  "returned r = map_option fst r"

definition storeAfter :: "'a res \<Rightarrow> store option" where
  "storeAfter r = map_option snd r"

definition stateAfter :: "'a res \<Rightarrow> jsval option" where
  "stateAfter r = map_option (\<lambda>x. currentState (snd x)) r"

definition logAfter :: "'a res \<Rightarrow> nat list option" where
  "logAfter r = map_option (\<lambda>x. notified (snd x)) r"

section \<open>More example stores\<close>

text \<open>\<^verbatim>\<open>createStore(counter)\<close>.\<close>

definition counterStore :: store where
  "counterStore =
     (case createStoreBase 3 (Fn counter) VUndefined of
        Some (Inr s) \<Rightarrow> s
      | _ \<Rightarrow> initialStore counter VUndefined)"

text \<open>Two listeners, the first of which throws.\<close>

definition throwingStore :: store where
  "throwingStore =
     snd (subscribe (Fn (Listener 2 []))
            (snd (subscribe (Fn (Listener 1 [CThrow ''boom''])) counterStore)))"

text \<open>A listener that unsubscribes itself and dispatches.\<close>

definition redispatchStore :: store where
  "redispatchStore =
     snd (subscribe (Fn (Listener 3 [CUnsubscribe 0, CDispatch INC])) counterStore)"

text \<open>A counter that throws on the action type \<^verbatim>\<open>BAD\<close>.\<close>

definition BAD :: jsval where
  "BAD = VObject [(''type'', VStr ''BAD'')]"

definition pickyCounter :: reducer where
  "pickyCounter = Reducer [] (\<lambda>st action.
      if getProp action ''type'' = VStr ''BAD'' then Inl (UserError ''bad action'')
      else Inr (if getProp action ''type'' = VStr ''INC''
                then (case st of VNum k \<Rightarrow> VNum (k + 1) | _ \<Rightarrow> VNum 1)
                else (case st of VUndefined \<Rightarrow> VNum 0 | _ \<Rightarrow> st)))"

definition pickyStore :: store where
  "pickyStore =
     (case createStoreBase 3 (Fn pickyCounter) VUndefined of
        Some (Inr s) \<Rightarrow> snd (subscribe (Fn lateListener) s)
      | _ \<Rightarrow> initialStore pickyCounter VUndefined)"

text \<open>
  A reducer that dispatches while it runs. \<^verbatim>\<open>replaceReducer\<close> installs it and throws,
  which leaves a store with this reducer.
\<close>

definition nestingReducer :: reducer where
  "nestingReducer = Reducer [CDispatch INC] (\<lambda>st action. Inr st)"

definition nestingStore :: store where
  "nestingStore =
     (case replaceReducer 9 (Fn nestingReducer) counterStore of
        Some (r, s) \<Rightarrow> s
      | None \<Rightarrow> counterStore)"

text \<open>
  A reducer that calls \<^verbatim>\<open>replaceReducer(counter)\<close> in a \<^verbatim>\<open>try\<close> block while it runs, and
  returns the string \<^verbatim>\<open>old\<close>; and the store after \<^verbatim>\<open>createStore(counter)\<close> and
  \<^verbatim>\<open>replaceReducer\<close> of this reducer.
\<close>

definition swappingReducer :: reducer where
  "swappingReducer =
     Reducer [CTry (CReplaceReducer (Fn counter))] (\<lambda>st action. Inr (VStr ''old''))"

definition swappingStore :: store where
  "swappingStore =
     (case replaceReducer 12 (Fn swappingReducer) counterStore of
        Some (r, s) \<Rightarrow> s
      | None \<Rightarrow> counterStore)"

fun reducerBody :: "reducer \<Rightarrow> cmd list" where
  "reducerBody (Reducer body f) = body"

text \<open>The function of a reducer, applied: \<^verbatim>\<open>r(state, action)\<close> for a reducer that calls nothing.\<close>

fun reducerFunction :: "reducer \<Rightarrow> jsval \<Rightarrow> jsval \<Rightarrow> error + jsval" where
  "reducerFunction (Reducer body f) = f"

definition REPLACE :: jsval where
  "REPLACE = VObject [(''type'', ActionTypes_REPLACE)]"

definition INIT :: jsval where
  "INIT = VObject [(''type'', ActionTypes_INIT)]"

text \<open>A reducer that maps a number \<open>k\<close> to \<open>2 k + 1\<close>, whatever the action is.\<close>

definition doubler :: reducer where
  "doubler = Reducer [] (\<lambda>st action.
      Inr (case st of VNum k \<Rightarrow> VNum (2 * k + 1) | _ \<Rightarrow> VNum 0))"

text \<open>What \<^verbatim>\<open>getState()\<close> returns on the store that a construction returned.\<close>

fun createdState :: "(error + created) option \<Rightarrow> jsval option" where
  "createdState (Some (Inr (Plain s))) =
     (case getState s of (Inr v, s1) \<Rightarrow> Some v | (Inl e, s1) \<Rightarrow> None)"
| "createdState r = None"

section \<open>Example middleware\<close>

text \<open>
  A middleware that appends its name to the field \<^verbatim>\<open>path\<close> of the action before it calls
  \<^verbatim>\<open>next\<close>, and returns \<^verbatim>\<open>{ by: name, inner: result }\<close> around what \<^verbatim>\<open>next\<close> returned.
\<close>

fun addPath :: "string \<Rightarrow> jsval \<Rightarrow> jsval" where
  "addPath name (VObject props) =
     VObject (map (\<lambda>(k, v). if k = ''path''
                               then (k, case v of VStr p \<Rightarrow> VStr (p @ name) | _ \<Rightarrow> v)
                               else (k, v)) props)"
| "addPath name v = v"

definition tagger :: "string \<Rightarrow> middleware" where
  "tagger name =
     \<lparr>construct = [],
      wrap = (\<lambda>api next action m.
                case next (addPath name action) m of
                  None \<Rightarrow> None
                | Some (Inl e, m1) \<Rightarrow> Some (Inl e, m1)
                | Some (Inr v, m1) \<Rightarrow>
                    Some (Inr (VObject [(''by'', VStr name), (''inner'', v)]), m1))\<rparr>"

text \<open>A reducer that stores the path of the action it receives.\<close>

definition recorder :: reducer where
  "recorder = Reducer [] (\<lambda>st action. Inr (getProp action ''path''))"

definition GO :: jsval where
  "GO = VObject [(''type'', VStr ''GO''), (''path'', VStr '''')]"

text \<open>A middleware that dispatches while it is instantiated, and one that catches the error.\<close>

definition eager :: middleware where
  "eager = \<lparr>construct = [MDispatch INC], wrap = (\<lambda>api next. next)\<rparr>"

definition cautious :: middleware where
  "cautious = \<lparr>construct = [MTry (MDispatch INC), MGetState], wrap = (\<lambda>api next. next)\<rparr>"

definition mreturned :: "'a mres \<Rightarrow> (error + 'a) option" where
  "mreturned r = map_option fst r"

definition mstateAfter :: "'a mres \<Rightarrow> jsval option" where
  "mstateAfter r = map_option (\<lambda>x. currentState (base (snd x))) r"

text \<open>Dispatching on the object that a construction through an enhancer returned.\<close>

fun dispatchOn :: "(error + enhanced) option \<Rightarrow> jsval \<Rightarrow> jsval mres" where
  "dispatchOn (Some (Inr h)) action = enhDispatch h action (enhState h)"
| "dispatchOn r action = None"

fun enhancedState :: "(error + enhanced) option \<Rightarrow> jsval option" where
  "enhancedState (Some (Inr h)) = Some (currentState (base (enhState h)))"
| "enhancedState r = None"

text \<open>\<open>keeping self\<close>: a call leaves the flag as it found it.\<close>

definition keeping :: "interp \<Rightarrow> bool" where
  "keeping self = (\<forall>c s r s'. self c s = Some (r, s') \<longrightarrow> isDispatching s' = isDispatching s)"

text \<open>The list without the first element that is the function \<open>f\<close>.\<close>

fun removeFirst :: "listener list \<Rightarrow> listener \<Rightarrow> listener list" where
  "removeFirst [] f = []"
| "removeFirst (y # ys) f = (if sameFunction y f then ys else y # removeFirst ys f)"

definition runCmd :: "nat \<Rightarrow> cmd \<Rightarrow> store \<Rightarrow> jsval res" where
  "runCmd n c = exec n (RunCmd c)"

text \<open>The example store after \<^verbatim>\<open>subscribe(lateListener)\<close>.\<close>

definition pairStore :: store where
  "pairStore =
     \<lparr>currentReducer = counter, currentState = VNum 0,
      currentListeners = 0, nextListeners = 1, isDispatching = False,
      arrays = (\<lambda>a. [])(1 := [subscribingListener, lateListener]), arrayCount = 2,
      subscriptions = [(subscribingListener, True), (lateListener, True)], notified = []\<rparr>"

text \<open>\<^verbatim>\<open>createStore(counter)\<close> and three listeners, the second of which throws.\<close>

definition stoppingStore :: store where
  "stoppingStore =
     snd (subscribe (Fn (Listener 6 []))
       (snd (subscribe (Fn (Listener 5 [CThrow ''stop'']))
         (snd (subscribe (Fn (Listener 4 [])) counterStore)))))"

text \<open>
  \<open>balanced s\<close>: the next list holds each function as many times as there are live
  unsubscribe functions for it.
\<close>

definition balanced :: "store \<Rightarrow> bool" where
  "balanced s =
     (\<forall>i. length (filter (\<lambda>y. listenerId y = i) (arrays s (nextListeners s))) =
          length (filter (\<lambda>p. snd p \<and> listenerId (fst p) = i) (subscriptions s)))"

definition balancing :: "interp \<Rightarrow> bool" where
  "balancing self = (\<forall>c s r s'. self c s = Some (r, s') \<longrightarrow> balanced s \<longrightarrow> balanced s')"

text \<open>
  A reducer that reads the state in a \<^verbatim>\<open>try\<close> block and then dispatches, and the store that
  \<^verbatim>\<open>replaceReducer\<close> leaves when it installs it and throws.
\<close>

definition lateNestingReducer :: reducer where
  "lateNestingReducer = Reducer [CTry CGetState, CDispatch INC] (\<lambda>st action. Inr st)"

definition lateNestingStore :: store where
  "lateNestingStore = exampleStore\<lparr>currentReducer := lateNestingReducer\<rparr>"

text \<open>A reducer that dispatches in a \<^verbatim>\<open>try\<close> block and returns 7.\<close>

definition catchingReducer :: reducer where
  "catchingReducer = Reducer [CTry (CDispatch INC)] (\<lambda>st action. Inr (VNum 7))"

definition catchingStore :: store where
  "catchingStore =
     (case replaceReducer 9 (Fn catchingReducer) counterStore of
        Some (r, s) \<Rightarrow> s
      | None \<Rightarrow> counterStore)"

definition reentrantListener :: listener where
  "reentrantListener = Listener 9 [CDispatch INC]"

section \<open>Properties of the composer\<close>

lemma foldl_compose_apply:
  "foldl (\<lambda>a b. (\<lambda>args. a (b args))) f gs x = f (foldr (\<lambda>g. g) gs x)"
  by (induction gs arbitrary: f x) simp_all

lemma compose_foldr: "compose funcs x = foldr (\<lambda>g. g) funcs x"
proof (cases funcs)
  case Nil
  then show ?thesis by (simp add: compose_def)
next
  case (Cons f gs)
  then show ?thesis
    by (cases gs) (simp_all add: compose_def foldl_compose_apply)
qed

text \<open>
  C6. Composing no function gives the identity; composing the one-element list \<open>[f]\<close> gives
  \<open>f\<close> itself; and the composition of \<open>[f, g, h]\<close> at \<open>x\<close> is \<open>f (g (h x))\<close>.
\<close>

theorem compose_contract:
  "compose [] = (\<lambda>x. x) \<and> compose [f] = f \<and> compose [f, g, h] x = f (g (h x))"
  by (simp add: compose_def)


section \<open>The registry under callbacks\<close>

lemma ext_refl: "wellFormed s \<Longrightarrow> ext s s" by (simp add: ext_def)

lemma ext_trans: "ext s s1 \<Longrightarrow> ext s1 s2 \<Longrightarrow> ext s s2"
  by (auto simp: ext_def)

lemma ext_ensure: "wellFormed s \<Longrightarrow> ext s (ensureCanMutateNextListeners s)"
  by (auto simp: ext_def wellFormed_def ensureCanMutateNextListeners_def)

lemma ensure_next: "wellFormed s \<Longrightarrow> currentListeners (ensureCanMutateNextListeners s) < nextListeners (ensureCanMutateNextListeners s)"
  by (auto simp: wellFormed_def ensureCanMutateNextListeners_def)

lemma ext_subscribe: "wellFormed s \<Longrightarrow> subscribe l s = (r, s') \<Longrightarrow> ext s s'"
  using ext_ensure[of s] ensure_next[of s]
  by (auto simp: subscribe_def Let_def ext_def wellFormed_def split: jsarg.splits if_splits)

lemma ext_unsubscribe: "wellFormed s \<Longrightarrow> unsubscribe h s = (r, s') \<Longrightarrow> ext s s'"
  using ext_ensure[of "s\<lparr>subscriptions := (subscriptions s)[h := (fst (subscriptions s ! h), False)]\<rparr>"]
     ensure_next[of "s\<lparr>subscriptions := (subscriptions s)[h := (fst (subscriptions s ! h), False)]\<rparr>"]
  by (auto simp: unsubscribe_def Let_def ext_def wellFormed_def split: prod.splits if_splits)

lemma andThen_SomeE:
  assumes "andThen m k = Some (r, s')"
  obtains (throw) e where "m = Some (Inl e, s')" "r = Inl e"
        | (ret) v s1 where "m = Some (Inr v, s1)" "k v s1 = Some (r, s')"
  using assms by (auto simp: andThen_def split: option.splits sum.splits prod.splits)

lemma wf_fields [simp]:
  "wellFormed (s\<lparr>isDispatching := b\<rparr>) = wellFormed s"
  "wellFormed (s\<lparr>currentState := v\<rparr>) = wellFormed s"
  "wellFormed (s\<lparr>currentReducer := rd\<rparr>) = wellFormed s"
  "wellFormed (s\<lparr>notified := ns\<rparr>) = wellFormed s"
  by (simp_all add: wellFormed_def)

lemma ext_fields [simp]:
  "ext s (s'\<lparr>isDispatching := b\<rparr>) = ext s s'"
  "ext s (s'\<lparr>currentState := v\<rparr>) = ext s s'"
  "ext s (s'\<lparr>currentReducer := rd\<rparr>) = ext s s'"
  "ext s (s'\<lparr>notified := ns\<rparr>) = ext s s'"
  "ext (s\<lparr>isDispatching := b\<rparr>) s' = ext s s'"
  "ext (s\<lparr>currentState := v\<rparr>) s' = ext s s'"
  "ext (s\<lparr>currentReducer := rd\<rparr>) s' = ext s s'"
  "ext (s\<lparr>notified := ns\<rparr>) s' = ext s s'"
  by (simp_all add: ext_def)

lemma ext_snapshot: "ext s s1 \<Longrightarrow> ext s (s1\<lparr>currentListeners := nextListeners s1\<rparr>)"
  by (auto simp: ext_def wellFormed_def)

lemma ext_wf: "ext s s' \<Longrightarrow> wellFormed s'" by (simp add: ext_def)

lemma preservingD: "preserving self \<Longrightarrow> self c s = Some (r, s') \<Longrightarrow> wellFormed s \<Longrightarrow> ext s s'"
  by (auto simp: preserving_def)

lemma dispatchBody_ext:
  assumes P: "preserving self" and R: "dispatchBody self action s = Some (r, s')" and I: "wellFormed s"
  shows "ext s s'"
proof -
  consider (guard) "s' = s"
    | (thrown) e s1 where "self (CallReducer (currentReducer s) (currentState s) action)
          (s\<lparr>isDispatching := True\<rparr>) = Some (Inl e, s1)" "s' = s1\<lparr>isDispatching := False\<rparr>"
    | (reduced) v s1 where "self (CallReducer (currentReducer s) (currentState s) action)
          (s\<lparr>isDispatching := True\<rparr>) = Some (Inr v, s1)"
         "andThen (self (Notify (nextListeners s1) 0)
             (s1\<lparr>currentState := v, isDispatching := False, currentListeners := nextListeners s1\<rparr>))
             (\<lambda>u s5. Some (Inr action, s5)) = Some (r, s')"
    using R by (auto simp: dispatchBody_def Let_def split: if_splits option.splits sum.splits prod.splits)
  then show ?thesis
  proof cases
    case guard
    then show ?thesis using I by (simp add: ext_refl)
  next
    case thrown
    from preservingD[OF P thrown(1)] I show ?thesis using thrown(2) by simp
  next
    case reduced
    from preservingD[OF P reduced(1)] I have E1: "ext s s1" by simp
    let ?s4 = "s1\<lparr>currentState := v, isDispatching := False, currentListeners := nextListeners s1\<rparr>"
    have E4: "ext s ?s4" using ext_snapshot[OF E1] by (simp add: ext_def wellFormed_def)
    from reduced(2) have "\<exists>r'. self (Notify (nextListeners s1) 0) ?s4 = Some (r', s')"
      by (auto elim!: andThen_SomeE)
    then obtain r' where "self (Notify (nextListeners s1) 0) ?s4 = Some (r', s')" ..
    from preservingD[OF P this] E4 have "ext ?s4 s'" by (simp add: ext_def)
    with E4 show ?thesis by (rule ext_trans)
  qed
qed

lemma notifyBody_ext:
  assumes P: "preserving self" and R: "notifyBody self a i s = Some (r, s')" and I: "wellFormed s"
  shows "ext s s'"
proof (cases "i < length (arrays s a)")
  case False
  with R I show ?thesis by (simp add: notifyBody_def ext_refl)
next
  case True
  with R have "andThen (self (CallListener (arrays s a ! i)) s)
             (\<lambda>u s1. self (Notify a (Suc i)) s1) = Some (r, s')"
    by (simp add: notifyBody_def)
  then show ?thesis
  proof (cases rule: andThen_SomeE)
    case (throw e)
    then show ?thesis using preservingD[OF P _ I] by blast
  next
    case (ret v s1)
    from preservingD[OF P ret(1) I] have E1: "ext s s1" .
    from preservingD[OF P ret(2) ext_wf[OF E1]] have "ext s1 s'" .
    with E1 show ?thesis by (rule ext_trans)
  qed
qed

lemma callListenerBody_ext:
  assumes P: "preserving self" and R: "callListenerBody self l s = Some (r, s')" and I: "wellFormed s"
  shows "ext s s'"
proof (cases l)
  case (Listener ident body)
  with R have "self (RunScript body) (s\<lparr>notified := notified s @ [ident]\<rparr>) = Some (r, s')"
    by simp
  from preservingD[OF P this] I show ?thesis by simp
qed

lemma callReducerBody_ext:
  assumes P: "preserving self" and R: "callReducerBody self rd st action s = Some (r, s')"
    and I: "wellFormed s"
  shows "ext s s'"
proof (cases rd)
  case (Reducer body f)
  with R have "\<exists>r'. self (RunScript body) s = Some (r', s')"
    by (auto elim!: andThen_SomeE split: sum.splits)
  then show ?thesis using preservingD[OF P _ I] by blast
qed

lemma runScriptBody_ext:
  assumes P: "preserving self" and R: "runScriptBody self cs s = Some (r, s')" and I: "wellFormed s"
  shows "ext s s'"
proof (cases cs)
  case Nil
  with R I show ?thesis by (simp add: ext_refl)
next
  case (Cons c cs')
  with R have "andThen (self (RunCmd c) s) (\<lambda>u s1. self (RunScript cs') s1) = Some (r, s')"
    by simp
  then show ?thesis
  proof (cases rule: andThen_SomeE)
    case (throw e)
    then show ?thesis using preservingD[OF P _ I] by blast
  next
    case (ret v s1)
    from preservingD[OF P ret(1) I] have E1: "ext s s1" .
    from preservingD[OF P ret(2) ext_wf[OF E1]] have "ext s1 s'" .
    with E1 show ?thesis by (rule ext_trans)
  qed
qed

lemma runCmdBody_ext:
  assumes P: "preserving self" and R: "runCmdBody self c s = Some (r, s')" and I: "wellFormed s"
  shows "ext s s'"
proof (cases c)
  case CGetState
  with R I show ?thesis by (auto simp: getState_def ext_refl split: if_splits)
next
  case (CSubscribe l)
  with R have "\<exists>r'. subscribe l s = (r', s')" by (auto split: prod.splits sum.splits)
  then show ?thesis using ext_subscribe[OF I] by blast
next
  case (CUnsubscribe h)
  with R have "\<exists>r'. unsubscribe h s = (r', s')" by (auto split: prod.splits sum.splits)
  then show ?thesis using ext_unsubscribe[OF I] by blast
next
  case (CDispatch action)
  with R show ?thesis using preservingD[OF P _ I] by simp
next
  case (CReplaceReducer rd)
  with R show ?thesis using preservingD[OF P _ I] by simp
next
  case (CThrow msg)
  with R I show ?thesis by (auto simp: ext_refl)
next
  case (CTry c')
  with R have "\<exists>r'. self (RunCmd c') s = Some (r', s')" by (auto split: option.splits)
  then show ?thesis using preservingD[OF P _ I] by blast
qed

lemma replaceReducerBody_ext:
  assumes P: "preserving self" and R: "replaceReducerBody self nr s = Some (r, s')" and I: "wellFormed s"
  shows "ext s s'"
proof (cases nr)
  case (Val v)
  with R I show ?thesis by (simp add: replaceReducerBody_def ext_refl)
next
  case (Fn rd)
  with R have "\<exists>r'. self (Dispatch (VObject [(''type'', ActionTypes_REPLACE)]))
                     (s\<lparr>currentReducer := rd\<rparr>) = Some (r', s')"
    by (auto simp: replaceReducerBody_def elim!: andThen_SomeE)
  then obtain r' where "self (Dispatch (VObject [(''type'', ActionTypes_REPLACE)]))
                     (s\<lparr>currentReducer := rd\<rparr>) = Some (r', s')" ..
  from preservingD[OF P this] I show ?thesis by simp
qed

lemma step_preserving: "preserving self \<Longrightarrow> preserving (step self)"
  unfolding preserving_def[of "step self"]
proof (intro allI impI)
  fix c s r s'
  assume P: "preserving self" and R: "step self c s = Some (r, s')" and I: "wellFormed s"
  show "ext s s'"
    using R dispatchBody_ext[OF P _ I] notifyBody_ext[OF P _ I] callListenerBody_ext[OF P _ I]
      callReducerBody_ext[OF P _ I] runScriptBody_ext[OF P _ I] runCmdBody_ext[OF P _ I]
      replaceReducerBody_ext[OF P _ I]
    by (cases c) simp_all
qed

lemma exec_preserving: "preserving (exec n)"
proof (induction n)
  case 0
  show ?case by (simp add: preserving_def)
next
  case (Suc n)
  then show ?case by (simp add: step_preserving)
qed

lemma exec_ext: "exec n c s = Some (r, s') \<Longrightarrow> wellFormed s \<Longrightarrow> ext s s'"
  using exec_preserving by (rule preservingD)

lemma andThen_cong_ret:
  "(\<And>v s1. m = Some (Inr v, s1) \<Longrightarrow> k v s1 = k' v s1) \<Longrightarrow> andThen m k = andThen m k'"
  by (auto simp: andThen_def split: option.splits sum.splits prod.splits)

lemma notify_snapshot:
  "wellFormed s \<Longrightarrow> a \<le> currentListeners s \<Longrightarrow>
   notify n a i s = notifySnapshot n (drop i (arrays s a)) s"
proof (induction n arbitrary: i s)
  case 0
  show ?case by (simp add: notify_def)
next
  case (Suc n)
  show ?case
  proof (cases "i < length (arrays s a)")
    case False
    then show ?thesis by (simp add: notify_def notifyBody_def)
  next
    case True
    have D: "drop i (arrays s a) = arrays s a ! i # drop (Suc i) (arrays s a)"
      using True by (simp add: Cons_nth_drop_Suc)
    have "andThen (exec n (CallListener (arrays s a ! i)) s) (\<lambda>u s1. notify n a (Suc i) s1)
        = andThen (exec n (CallListener (arrays s a ! i)) s)
            (\<lambda>u s1. notifySnapshot n (drop (Suc i) (arrays s a)) s1)"
    proof (rule andThen_cong_ret)
      fix v s1
      assume "exec n (CallListener (arrays s a ! i)) s = Some (Inr v, s1)"
      from exec_ext[OF this Suc.prems(1)] have E: "ext s s1" .
      then have "wellFormed s1" "a \<le> currentListeners s1" "arrays s1 a = arrays s a"
        using Suc.prems(2) by (auto simp: ext_def)
      with Suc.IH[of s1 "Suc i"]
      show "notify n a (Suc i) s1 = notifySnapshot n (drop (Suc i) (arrays s a)) s1" by simp
    qed
    then show ?thesis
      using True by (simp add: notify_def notifyBody_def D callListener_def)
  qed
qed

lemma onlyReducer_refl: "onlyReducer s s"
  unfolding onlyReducer_def by (rule exI[of _ "currentReducer s"]) simp

lemma onlyReducer_trans: "onlyReducer s s1 \<Longrightarrow> onlyReducer s1 s2 \<Longrightarrow> onlyReducer s s2"
  by (auto simp: onlyReducer_def)

lemma onlyReducer_flag: "onlyReducer s s' \<Longrightarrow> isDispatching s' = isDispatching s"
  by (auto simp: onlyReducer_def)

lemma onlyReducer_upd: "onlyReducer (s\<lparr>currentReducer := rd\<rparr>) s' \<Longrightarrow> onlyReducer s s'"
  by (auto simp: onlyReducer_def)

lemma frozenD:
  "frozen self \<Longrightarrow> self c s = Some (r, s') \<Longrightarrow> reducerCall c \<Longrightarrow> isDispatching s \<Longrightarrow> onlyReducer s s'"
  by (auto simp: frozen_def)

lemma dispatchBody_flag:
  "isDispatching s \<Longrightarrow> dispatchBody self action s = Some (r, s') \<Longrightarrow> s' = s"
  by (auto simp: dispatchBody_def split: if_splits)

lemma dispatchBody_frozen:
  "isDispatching s \<Longrightarrow> dispatchBody self action s = Some (r, s') \<Longrightarrow> onlyReducer s s'"
  by (auto dest: dispatchBody_flag simp: onlyReducer_refl)

lemma seq_frozen:
  assumes F: "frozen self" and D: "isDispatching s" and C: "reducerCall c1" "reducerCall c2"
    and R: "andThen (self c1 s) (\<lambda>u s1. self c2 s1) = Some (r, s')"
  shows "onlyReducer s s'"
  using R
proof (cases rule: andThen_SomeE)
  case (throw e)
  from frozenD[OF F throw(1) C(1) D] show ?thesis .
next
  case (ret v s1)
  from frozenD[OF F ret(1) C(1) D] have O1: "onlyReducer s s1" .
  then have "isDispatching s1" using D by (simp add: onlyReducer_flag)
  from frozenD[OF F ret(2) C(2) this] O1 show ?thesis by (blast intro: onlyReducer_trans)
qed

lemma callReducerBody_frozen:
  assumes F: "frozen self" and D: "isDispatching s"
    and R: "callReducerBody self rd st action s = Some (r, s')"
  shows "onlyReducer s s'"
proof (cases rd)
  case (Reducer body f)
  with R have "\<exists>r'. self (RunScript body) s = Some (r', s')"
    by (auto elim!: andThen_SomeE split: sum.splits)
  then show ?thesis using frozenD[OF F _ _ D] by fastforce
qed

lemma runScriptBody_frozen:
  assumes F: "frozen self" and D: "isDispatching s"
    and R: "runScriptBody self cs s = Some (r, s')"
  shows "onlyReducer s s'"
proof (cases cs)
  case Nil
  with R show ?thesis by (simp add: onlyReducer_refl)
next
  case (Cons c cs')
  with R have "andThen (self (RunCmd c) s) (\<lambda>u s1. self (RunScript cs') s1) = Some (r, s')"
    by simp
  from seq_frozen[OF F D _ _ this] show ?thesis by simp
qed

lemma runCmdBody_frozen:
  assumes F: "frozen self" and D: "isDispatching s"
    and R: "runCmdBody self c s = Some (r, s')"
  shows "onlyReducer s s'"
proof (cases c)
  case CGetState
  with R D show ?thesis by (auto simp: getState_def onlyReducer_refl)
next
  case (CSubscribe l)
  with R D show ?thesis
    by (auto simp: subscribe_def onlyReducer_refl split: jsarg.splits)
next
  case (CUnsubscribe h)
  with R D show ?thesis
    by (auto simp: unsubscribe_def onlyReducer_refl split: if_splits prod.splits)
next
  case (CDispatch action)
  with R show ?thesis using frozenD[OF F _ _ D] by fastforce
next
  case (CReplaceReducer rd)
  with R show ?thesis using frozenD[OF F _ _ D] by fastforce
next
  case (CThrow msg)
  with R show ?thesis by (auto simp: onlyReducer_refl)
next
  case (CTry c')
  with R have "\<exists>r'. self (RunCmd c') s = Some (r', s')" by (auto split: option.splits)
  then show ?thesis using frozenD[OF F _ _ D] by fastforce
qed

lemma replaceReducerBody_frozen:
  assumes F: "frozen self" and D: "isDispatching s"
    and R: "replaceReducerBody self nr s = Some (r, s')"
  shows "onlyReducer s s'"
proof (cases nr)
  case (Val v)
  with R show ?thesis by (simp add: replaceReducerBody_def onlyReducer_refl)
next
  case (Fn rd)
  with R have "\<exists>r'. self (Dispatch (VObject [(''type'', ActionTypes_REPLACE)]))
                     (s\<lparr>currentReducer := rd\<rparr>) = Some (r', s')"
    by (auto simp: replaceReducerBody_def elim!: andThen_SomeE)
  then obtain r' where "self (Dispatch (VObject [(''type'', ActionTypes_REPLACE)]))
                     (s\<lparr>currentReducer := rd\<rparr>) = Some (r', s')" ..
  from frozenD[OF F this] D have "onlyReducer (s\<lparr>currentReducer := rd\<rparr>) s'" by simp
  then show ?thesis by (rule onlyReducer_upd)
qed

lemma step_frozen: "frozen self \<Longrightarrow> frozen (step self)"
  unfolding frozen_def[of "step self"]
proof (intro allI impI)
  fix c s r s'
  assume F: "frozen self" and C: "reducerCall c" and D: "isDispatching s"
    and R: "step self c s = Some (r, s')"
  show "onlyReducer s s'"
    using R C dispatchBody_frozen[OF D, of self] callReducerBody_frozen[OF F D]
      runScriptBody_frozen[OF F D] runCmdBody_frozen[OF F D] replaceReducerBody_frozen[OF F D]
    by (cases c) simp_all
qed

lemma exec_frozen: "frozen (exec n)"
proof (induction n)
  case 0
  show ?case by (simp add: frozen_def)
next
  case (Suc n)
  then show ?case by (simp add: step_frozen)
qed

lemma callReducer_frozen:
  "callReducer n rd st action s = Some (r, s') \<Longrightarrow> isDispatching s \<Longrightarrow> onlyReducer s s'"
  using frozenD[OF exec_frozen, of n "CallReducer rd st action" s r s']
  by (simp add: callReducer_def)

lemma refinesD: "refines self self' \<Longrightarrow> self c s = Some x \<Longrightarrow> self' c s = Some x"
  unfolding refines_def by blast

lemma andThen_refines:
  assumes "andThen m k = Some x"
    and "\<And>y. m = Some y \<Longrightarrow> m' = Some y"
    and "\<And>v s1 y. k v s1 = Some y \<Longrightarrow> k' v s1 = Some y"
  shows "andThen m' k' = Some x"
proof (cases m)
  case None
  with assms(1) show ?thesis by (simp add: andThen_def)
next
  case (Some y)
  with assms(2) have M: "m' = Some y" by simp
  obtain r s1 where Y: "y = (r, s1)" by (cases y)
  show ?thesis
  proof (cases r)
    case (Inl e)
    with assms(1) Some Y M show ?thesis by (simp add: andThen_def)
  next
    case (Inr v)
    with assms(1) Some Y have "k v s1 = Some x" by (simp add: andThen_def)
    from assms(3)[OF this] M Y Inr show ?thesis by (simp add: andThen_def)
  qed
qed

lemma dispatchBody_refines:
  assumes M: "refines self self'" and R: "dispatchBody self action s = Some x"
  shows "dispatchBody self' action s = Some x"
proof (cases "\<not> isPlainObject action \<or> getProp action ''type'' = VUndefined \<or> isDispatching s")
  case True
  with R show ?thesis by (auto simp: dispatchBody_def)
next
  case False
  let ?c = "CallReducer (currentReducer s) (currentState s) action"
  let ?s = "s\<lparr>isDispatching := True\<rparr>"
  from R False obtain y where Y: "self ?c ?s = Some y"
    by (cases "self ?c ?s") (auto simp: dispatchBody_def)
  from refinesD[OF M Y] have Y': "self' ?c ?s = Some y" .
  obtain r s1 where P: "y = (r, s1)" by (cases y)
  show ?thesis
  proof (cases r)
    case (Inl e)
    with R False Y Y' P show ?thesis by (simp add: dispatchBody_def)
  next
    case (Inr v)
    let ?s4 = "s1\<lparr>currentState := v, isDispatching := False, currentListeners := nextListeners s1\<rparr>"
    from R False Y P Inr
    have "andThen (self (Notify (nextListeners s1) 0) ?s4) (\<lambda>u s5. Some (Inr action, s5)) = Some x"
      by (simp add: dispatchBody_def Let_def)
    then have "andThen (self' (Notify (nextListeners s1) 0) ?s4) (\<lambda>u s5. Some (Inr action, s5)) = Some x"
      by (rule andThen_refines) (auto dest: refinesD[OF M])
    with False Y' P Inr show ?thesis by (simp add: dispatchBody_def Let_def)
  qed
qed

lemma notifyBody_refines:
  assumes M: "refines self self'" and R: "notifyBody self a i s = Some x"
  shows "notifyBody self' a i s = Some x"
proof (cases "i < length (arrays s a)")
  case False
  with R show ?thesis by (simp add: notifyBody_def)
next
  case True
  with R have "andThen (self (CallListener (arrays s a ! i)) s)
             (\<lambda>u s1. self (Notify a (Suc i)) s1) = Some x"
    by (simp add: notifyBody_def)
  then have "andThen (self' (CallListener (arrays s a ! i)) s)
             (\<lambda>u s1. self' (Notify a (Suc i)) s1) = Some x"
    by (rule andThen_refines) (auto dest: refinesD[OF M])
  with True show ?thesis by (simp add: notifyBody_def)
qed

lemma callListenerBody_refines:
  "refines self self' \<Longrightarrow> callListenerBody self l s = Some x \<Longrightarrow> callListenerBody self' l s = Some x"
  by (cases l) (auto dest: refinesD)

lemma callReducerBody_refines:
  assumes M: "refines self self'" and R: "callReducerBody self rd st action s = Some x"
  shows "callReducerBody self' rd st action s = Some x"
proof (cases rd)
  case (Reducer body f)
  with R have "andThen (self (RunScript body) s)
       (\<lambda>u s1. case f st action of Inl e \<Rightarrow> Some (Inl e, s1) | Inr v \<Rightarrow> Some (Inr v, s1)) = Some x"
    by simp
  then have "andThen (self' (RunScript body) s)
       (\<lambda>u s1. case f st action of Inl e \<Rightarrow> Some (Inl e, s1) | Inr v \<Rightarrow> Some (Inr v, s1)) = Some x"
    by (rule andThen_refines) (auto dest: refinesD[OF M])
  with Reducer show ?thesis by simp
qed

lemma runScriptBody_refines:
  assumes M: "refines self self'" and R: "runScriptBody self cs s = Some x"
  shows "runScriptBody self' cs s = Some x"
proof (cases cs)
  case Nil
  with R show ?thesis by simp
next
  case (Cons c cs')
  with R have "andThen (self (RunCmd c) s) (\<lambda>u s1. self (RunScript cs') s1) = Some x" by simp
  then have "andThen (self' (RunCmd c) s) (\<lambda>u s1. self' (RunScript cs') s1) = Some x"
    by (rule andThen_refines) (auto dest: refinesD[OF M])
  with Cons show ?thesis by simp
qed

lemma runCmdBody_refines:
  assumes M: "refines self self'" and R: "runCmdBody self c s = Some x"
  shows "runCmdBody self' c s = Some x"
proof (cases c)
  case (CTry c')
  with R obtain y where "self (RunCmd c') s = Some y" by (auto split: option.splits)
  with refinesD[OF M this] R CTry show ?thesis by simp
qed (use R in \<open>auto dest: refinesD[OF M]\<close>)

lemma replaceReducerBody_refines:
  assumes M: "refines self self'" and R: "replaceReducerBody self nr s = Some x"
  shows "replaceReducerBody self' nr s = Some x"
proof (cases nr)
  case (Val v)
  with R show ?thesis by (simp add: replaceReducerBody_def)
next
  case (Fn rd)
  with R have "andThen (self (Dispatch (VObject [(''type'', ActionTypes_REPLACE)]))
                     (s\<lparr>currentReducer := rd\<rparr>)) (\<lambda>v s1. Some (Inr VUndefined, s1)) = Some x"
    by (simp add: replaceReducerBody_def)
  then have "andThen (self' (Dispatch (VObject [(''type'', ActionTypes_REPLACE)]))
                     (s\<lparr>currentReducer := rd\<rparr>)) (\<lambda>v s1. Some (Inr VUndefined, s1)) = Some x"
    by (rule andThen_refines) (auto dest: refinesD[OF M])
  with Fn show ?thesis by (simp add: replaceReducerBody_def)
qed

lemma step_refines: "refines self self' \<Longrightarrow> refines (step self) (step self')"
  unfolding refines_def[of "step self"]
proof (intro allI impI)
  fix c s x
  assume M: "refines self self'" and R: "step self c s = Some x"
  show "step self' c s = Some x"
    using R dispatchBody_refines[OF M] notifyBody_refines[OF M] callListenerBody_refines[OF M]
      callReducerBody_refines[OF M] runScriptBody_refines[OF M] runCmdBody_refines[OF M]
      replaceReducerBody_refines[OF M]
    by (cases c) simp_all
qed

lemma exec_Suc_refines: "refines (exec n) (exec (Suc n))"
proof (induction n)
  case 0
  show ?case by (simp add: refines_def)
next
  case (Suc n)
  from step_refines[OF Suc] show ?case by simp
qed

lemma exec_more_fuel: "exec n c s = Some x \<Longrightarrow> n \<le> m \<Longrightarrow> exec m c s = Some x"
proof (induction m)
  case 0
  then show ?case by simp
next
  case (Suc m)
  show ?case
  proof (cases "n = Suc m")
    case True
    with Suc.prems show ?thesis by simp
  next
    case False
    with Suc have "exec m c s = Some x" by simp
    from refinesD[OF exec_Suc_refines this] show ?thesis .
  qed
qed

text \<open>Every store that the operations can produce is well-formed.\<close>

lemma initialStore_wellFormed: "wellFormed (initialStore r p)"
  by (simp add: wellFormed_def initialStore_def)

lemma createStoreBase_wellFormed:
  assumes "createStoreBase n reducer p = Some (Inr s)"
  shows "wellFormed s"
proof (cases reducer)
  case (Val v)
  with assms show ?thesis by (simp add: createStoreBase_def)
next
  case (Fn r)
  with assms have "\<exists>x. exec n (Dispatch (VObject [(''type'', ActionTypes_INIT)]))
      (initialStore r p) = Some (x, s)"
    by (auto simp: createStoreBase_def dispatch_def split: option.splits sum.splits)
  then obtain x where "exec n (Dispatch (VObject [(''type'', ActionTypes_INIT)]))
      (initialStore r p) = Some (x, s)" ..
  from exec_ext[OF this initialStore_wellFormed] show ?thesis by (rule ext_wf)
qed

lemma dispatch_wellFormed:
  "dispatch n action s = Some (x, s') \<Longrightarrow> wellFormed s \<Longrightarrow> wellFormed s'"
  unfolding dispatch_def by (rule ext_wf[OF exec_ext])

lemma replaceReducer_wellFormed:
  "replaceReducer n r s = Some (x, s') \<Longrightarrow> wellFormed s \<Longrightarrow> wellFormed s'"
  unfolding replaceReducer_def by (rule ext_wf[OF exec_ext])

lemma subscribe_wellFormed:
  "subscribe l s = (x, s') \<Longrightarrow> wellFormed s \<Longrightarrow> wellFormed s'"
  using ext_subscribe[of s l x s'] by (simp add: ext_wf)

lemma unsubscribe_wellFormed:
  "unsubscribe h s = (x, s') \<Longrightarrow> wellFormed s \<Longrightarrow> wellFormed s'"
  using ext_unsubscribe[of s h x s'] by (simp add: ext_wf)

section \<open>What a dispatch does\<close>

lemma dispatch_Suc: "dispatch (Suc n) action s = dispatchBody (exec n) action s"
  by (simp add: dispatch_def)

lemma dispatch_guard:
  "\<not> isPlainObject action \<or> getProp action ''type'' = VUndefined \<or> isDispatching s \<Longrightarrow>
   dispatch (Suc n) action s =
     Some (Inl (if \<not> isPlainObject action then ActionsMustBePlainObjects
                else if getProp action ''type'' = VUndefined then UndefinedActionType
                else ReducersMayNotDispatch), s)"
  by (auto simp: dispatch_Suc dispatchBody_def)

lemma dispatch_reducer_throws:
  assumes "isPlainObject action" "getProp action ''type'' \<noteq> VUndefined" "\<not> isDispatching s"
    and "callReducer n (currentReducer s) (currentState s) action (s\<lparr>isDispatching := True\<rparr>)
           = Some (Inl e, s1)"
  shows "dispatch (Suc n) action s = Some (Inl e, s\<lparr>currentReducer := currentReducer s1\<rparr>)"
proof -
  from callReducer_frozen[OF assms(4)] obtain rd
    where S1: "s1 = s\<lparr>isDispatching := True, currentReducer := rd\<rparr>"
    by (auto simp: onlyReducer_def)
  have "s1\<lparr>isDispatching := False\<rparr> = s\<lparr>currentReducer := currentReducer s1\<rparr>"
    using assms(3) unfolding S1 by simp
  with assms show ?thesis
    by (simp add: dispatch_Suc dispatchBody_def callReducer_def)
qed

lemma dispatch_reduced:
  assumes "isPlainObject action" "getProp action ''type'' \<noteq> VUndefined" "\<not> isDispatching s"
    and "callReducer n (currentReducer s) (currentState s) action (s\<lparr>isDispatching := True\<rparr>)
           = Some (Inr v, s1)"
  shows "dispatch (Suc n) action s =
     andThen (notify n (nextListeners s) 0
                (s\<lparr>currentReducer := currentReducer s1, currentState := v,
                   currentListeners := nextListeners s\<rparr>))
       (\<lambda>u s5. Some (Inr action, s5))"
proof -
  from callReducer_frozen[OF assms(4)] obtain rd
    where S1: "s1 = s\<lparr>isDispatching := True, currentReducer := rd\<rparr>"
    by (auto simp: onlyReducer_def)
  have "s1\<lparr>currentState := v, isDispatching := False, currentListeners := nextListeners s1\<rparr>
      = s\<lparr>currentReducer := currentReducer s1, currentState := v,
           currentListeners := nextListeners s\<rparr>"
    using assms(3) unfolding S1 by simp
  moreover have "nextListeners s1 = nextListeners s" unfolding S1 by simp
  ultimately show ?thesis using assms
    by (simp add: dispatch_Suc dispatchBody_def callReducer_def notify_def Let_def)
qed

lemma callReducer_pure:
  "callReducer (Suc (Suc n)) (Reducer [] f) st action s =
     (case f st action of Inl e \<Rightarrow> Some (Inl e, s) | Inr v \<Rightarrow> Some (Inr v, s))"
  by (simp add: callReducer_def andThen_def)

lemma exampleStore_reachable:
  "createStoreBase 3 (Fn counter) VUndefined = Some (Inr s) \<Longrightarrow>
   subscribe (Fn subscribingListener) s = (Inr 0, exampleStore)"
  by (auto simp: createStoreBase_def dispatch_def eval_nat_numeral dispatchBody_def
    initialStore_def counter_def ActionTypes_INIT_def andThen_def notifyBody_def
    subscribe_def ensureCanMutateNextListeners_def exampleStore_def Let_def)

lemma subscribe_registry:
  assumes "wellFormed s" and "subscribe (Fn l2) s = (Inr h, s')"
  shows "arrays s' (nextListeners s') = arrays s (nextListeners s) @ [l2]"
  using assms
  by (auto simp: subscribe_def ensureCanMutateNextListeners_def Let_def wellFormed_def
      split: if_splits)

section \<open>Quiet callbacks leave the state alone\<close>

lemma stillD: "still self \<Longrightarrow> self c s = Some (r, s') \<Longrightarrow> quietCall c \<Longrightarrow> sameCore s s'"
  unfolding still_def by blast

lemma sameCore_refl: "sameCore s s" by (simp add: sameCore_def)

lemma sameCore_trans: "sameCore s s1 \<Longrightarrow> sameCore s1 s2 \<Longrightarrow> sameCore s s2"
  by (simp add: sameCore_def)

lemma sameCore_ensure: "sameCore s (ensureCanMutateNextListeners s)"
  by (simp add: sameCore_def ensureCanMutateNextListeners_def)

lemma sameCore_subscribe: "subscribe l s = (r, s') \<Longrightarrow> sameCore s s'"
  by (auto simp: subscribe_def sameCore_def ensureCanMutateNextListeners_def Let_def
      split: jsarg.splits if_splits)

lemma sameCore_unsubscribe: "unsubscribe h s = (r, s') \<Longrightarrow> sameCore s s'"
  by (auto simp: unsubscribe_def sameCore_def ensureCanMutateNextListeners_def Let_def
      split: prod.splits if_splits)

lemma runScriptBody_still:
  assumes S: "still self" and Q: "list_all quietCmd cs"
    and R: "runScriptBody self cs s = Some (r, s')"
  shows "sameCore s s'"
proof (cases cs)
  case Nil
  with R show ?thesis by (simp add: sameCore_refl)
next
  case (Cons c cs')
  with R have "andThen (self (RunCmd c) s) (\<lambda>u s1. self (RunScript cs') s1) = Some (r, s')"
    by simp
  then show ?thesis
  proof (cases rule: andThen_SomeE)
    case (throw e)
    from stillD[OF S throw(1)] Q Cons show ?thesis by simp
  next
    case (ret v s1)
    from stillD[OF S ret(1)] Q Cons have "sameCore s s1" by simp
    moreover from stillD[OF S ret(2)] Q Cons have "sameCore s1 s'" by simp
    ultimately show ?thesis by (rule sameCore_trans)
  qed
qed

lemma runCmdBody_still:
  assumes S: "still self" and Q: "quietCmd c" and R: "runCmdBody self c s = Some (r, s')"
  shows "sameCore s s'"
proof (cases c)
  case CGetState
  with R show ?thesis by (auto simp: getState_def sameCore_refl split: if_splits)
next
  case (CSubscribe l)
  with R have "\<exists>r'. subscribe l s = (r', s')" by (auto split: prod.splits sum.splits)
  then show ?thesis using sameCore_subscribe by blast
next
  case (CUnsubscribe h)
  with R have "\<exists>r'. unsubscribe h s = (r', s')" by (auto split: prod.splits sum.splits)
  then show ?thesis using sameCore_unsubscribe by blast
next
  case (CDispatch action)
  with Q show ?thesis by simp
next
  case (CReplaceReducer rd)
  with Q show ?thesis by simp
next
  case (CThrow msg)
  with R show ?thesis by (auto simp: sameCore_refl)
next
  case (CTry c')
  with R have "\<exists>r'. self (RunCmd c') s = Some (r', s')" by (auto split: option.splits)
  then obtain r' where "self (RunCmd c') s = Some (r', s')" ..
  from stillD[OF S this] Q CTry show ?thesis by simp
qed

lemma step_still: "still self \<Longrightarrow> still (step self)"
  unfolding still_def[of "step self"]
proof (intro allI impI)
  fix c s r s'
  assume S: "still self" and Q: "quietCall c" and R: "step self c s = Some (r, s')"
  show "sameCore s s'"
    using R Q runScriptBody_still[OF S] runCmdBody_still[OF S]
    by (cases c) simp_all
qed

lemma exec_still: "still (exec n)"
proof (induction n)
  case 0
  show ?case by (simp add: still_def)
next
  case (Suc n)
  then show ?case by (simp add: step_still)
qed

lemma callListener_quiet:
  assumes "callListener n l s = Some (r, s')" and "quietListener l"
  shows "currentState s' = currentState s \<and> currentReducer s' = currentReducer s \<and>
         isDispatching s' = isDispatching s \<and> notified s' = notified s @ [listenerId l]"
proof (cases l)
  case (Listener ident body)
  show ?thesis
  proof (cases n)
    case 0
    with assms show ?thesis by (simp add: callListener_def)
  next
    case (Suc k)
    with assms Listener
    have "exec k (RunScript body) (s\<lparr>notified := notified s @ [ident]\<rparr>) = Some (r, s')"
      by (simp add: callListener_def)
    from stillD[OF exec_still this] assms(2) Listener show ?thesis
      by (simp add: quietListener_def sameCore_def)
  qed
qed

lemma notifySnapshot_quiet:
  "notifySnapshot n ls s = Some (Inr u, s') \<Longrightarrow> list_all quietListener ls \<Longrightarrow>
   currentState s' = currentState s \<and> currentReducer s' = currentReducer s \<and>
   isDispatching s' = isDispatching s \<and> notified s' = notified s @ map listenerId ls"
proof (induction ls arbitrary: n s)
  case Nil
  then show ?case by (cases n) simp_all
next
  case (Cons l ls)
  from Cons.prems(1) obtain k where K: "n = Suc k" by (cases n) simp_all
  from Cons.prems(1) K obtain v s1 where C: "callListener k l s = Some (Inr v, s1)"
    and N: "notifySnapshot k ls s1 = Some (Inr u, s')"
    by (auto elim!: andThen_SomeE)
  from callListener_quiet[OF C] Cons.prems(2) Cons.IH[OF N] show ?case by simp
qed

text \<open>
  C2, amended. A dispatch of a plain action with a type, on a well-formed store whose flag is
  clear and whose reducer returns \<open>v\<close>, stores \<open>v\<close>, makes the next list the current one,
  then calls the listeners of that list one after the other in registration order, up to the
  first one that throws. When none throws, \<^verbatim>\<open>dispatch\<close> returns the action it was given
  (with any larger fuel too); when moreover the listeners are quiet, the state is still
  \<open>v\<close> and the log has grown by exactly the listeners of the snapshot, each once, in order.
\<close>

theorem dispatch_postcondition:
  assumes "isPlainObject action" and "getProp action ''type'' \<noteq> VUndefined"
    and "\<not> isDispatching s" and "wellFormed s"
    and "callReducer n (currentReducer s) (currentState s) action (s\<lparr>isDispatching := True\<rparr>)
           = Some (Inr v, s1)"
  shows "let snapshot = arrays s (nextListeners s);
             s4 = s\<lparr>currentReducer := currentReducer s1, currentState := v,
                    currentListeners := nextListeners s\<rparr>
         in dispatch (Suc n) action s =
              andThen (notifySnapshot n snapshot s4) (\<lambda>u s'. Some (Inr action, s')) \<and>
            (\<forall>u s'. notifySnapshot n snapshot s4 = Some (Inr u, s') \<longrightarrow>
               (\<forall>m. Suc n \<le> m \<longrightarrow> dispatch m action s = Some (Inr action, s')) \<and>
               (list_all quietListener snapshot \<longrightarrow>
                  currentState s' = v \<and>
                  notified s' = notified s @ map listenerId snapshot))"
proof -
  let ?snapshot = "arrays s (nextListeners s)"
  let ?s4 = "s\<lparr>currentReducer := currentReducer s1, currentState := v,
                 currentListeners := nextListeners s\<rparr>"
  have W4: "wellFormed ?s4" using assms(4) by (simp add: wellFormed_def)
  have "notify n (nextListeners s) 0 ?s4 = notifySnapshot n ?snapshot ?s4"
    using notify_snapshot[OF W4, of "nextListeners s" n 0] by simp
  with dispatch_reduced[OF assms(1,2,3,5)]
  have D: "dispatch (Suc n) action s =
      andThen (notifySnapshot n ?snapshot ?s4) (\<lambda>u s'. Some (Inr action, s'))"
    by simp
  have "\<forall>u s'. notifySnapshot n ?snapshot ?s4 = Some (Inr u, s') \<longrightarrow>
               (\<forall>m. Suc n \<le> m \<longrightarrow> dispatch m action s = Some (Inr action, s')) \<and>
               (list_all quietListener ?snapshot \<longrightarrow>
                  currentState s' = v \<and>
                  notified s' = notified s @ map listenerId ?snapshot)"
  proof (intro allI impI conjI)
    fix u s' m
    assume N: "notifySnapshot n ?snapshot ?s4 = Some (Inr u, s')" and M: "Suc n \<le> m"
    from D N have "exec (Suc n) (Dispatch action) s = Some (Inr action, s')"
      by (simp add: dispatch_def andThen_def)
    from exec_more_fuel[OF this M] show "dispatch m action s = Some (Inr action, s')"
      by (simp add: dispatch_def)
  next
    fix u s'
    assume N: "notifySnapshot n ?snapshot ?s4 = Some (Inr u, s')"
      and Q: "list_all quietListener ?snapshot"
    from notifySnapshot_quiet[OF N Q] show "currentState s' = v" by simp
    from notifySnapshot_quiet[OF N Q]
    show "notified s' = notified s @ map listenerId ?snapshot" by simp
  qed
  with D show ?thesis by (simp add: Let_def)
qed

theorem dispatch_postcondition_witness:
  "isPlainObject INC \<and> getProp INC ''type'' \<noteq> VUndefined \<and>
   \<not> isDispatching exampleStore \<and> wellFormed exampleStore \<and>
   list_all quietListener (arrays exampleStore (nextListeners exampleStore)) \<and>
   map_option fst (dispatch 20 INC exampleStore) = Some (Inr INC) \<and>
   map_option (\<lambda>x. currentState (snd x)) (dispatch 20 INC exampleStore) = Some (VNum 1) \<and>
   map_option (\<lambda>x. notified (snd x)) (dispatch 20 INC exampleStore) = Some [1]"
proof -
  have W: "wellFormed exampleStore"
    by (simp add: wellFormed_def exampleStore_def)
  have R: "callReducer 8 (currentReducer exampleStore) (currentState exampleStore) INC
             (exampleStore\<lparr>isDispatching := True\<rparr>)
           = Some (Inr (VNum 1), exampleStore\<lparr>isDispatching := True\<rparr>)"
    by (simp add: exampleStore_def counter_def INC_def eval_nat_numeral callReducer_pure)
  have G: "isPlainObject INC" "getProp INC ''type'' \<noteq> VUndefined" "\<not> isDispatching exampleStore"
    by (simp_all add: INC_def exampleStore_def)
  have Q: "list_all quietListener (arrays exampleStore (nextListeners exampleStore))"
    by (simp add: exampleStore_def quietListener_def subscribingListener_def)
  let ?s4 = "exampleStore\<lparr>currentReducer := currentReducer (exampleStore\<lparr>isDispatching := True\<rparr>),
      currentState := VNum 1, currentListeners := nextListeners exampleStore\<rparr>"
  have "case notifySnapshot 8 (arrays exampleStore (nextListeners exampleStore)) ?s4 of
          Some (Inr u, s') \<Rightarrow> True | _ \<Rightarrow> False"
    by code_simp
  then obtain u s' where N: "notifySnapshot 8 (arrays exampleStore (nextListeners exampleStore)) ?s4
      = Some (Inr u, s')"
    by (auto split: option.splits sum.splits prod.splits)
  from dispatch_postcondition[OF G W R] N Q
  have "dispatch 20 INC exampleStore = Some (Inr INC, s')" "currentState s' = VNum 1"
    "notified s' = notified exampleStore @
       map listenerId (arrays exampleStore (nextListeners exampleStore))"
    by (simp_all add: Let_def)
  moreover have "notified exampleStore @
       map listenerId (arrays exampleStore (nextListeners exampleStore)) = [1]"
    by (simp add: exampleStore_def subscribingListener_def)
  ultimately show ?thesis using G W Q by simp
qed

text \<open>
  C2 as stated fails: the reducer returns normally, the first of two listeners throws, and
  \<^verbatim>\<open>dispatch\<close> throws instead of returning the action; the second listener is not called.
\<close>

theorem dispatch_postcondition_counterexample:
  "isPlainObject INC \<and> getProp INC ''type'' \<noteq> VUndefined \<and> \<not> isDispatching throwingStore \<and>
   returned (callReducer 8 (currentReducer throwingStore) (currentState throwingStore) INC
              (throwingStore\<lparr>isDispatching := True\<rparr>)) = Some (Inr (VNum 1)) \<and>
   map listenerId (arrays throwingStore (nextListeners throwingStore)) = [1, 2] \<and>
   returned (dispatch 9 INC throwingStore) = Some (Inl (UserError ''boom'')) \<and>
   logAfter (dispatch 9 INC throwingStore) = Some [1]"
  by code_simp

section \<open>Failures of dispatch\<close>

lemma dispatch_failure_cases:
  assumes "isPlainObject action" "getProp action ''type'' \<noteq> VUndefined" "\<not> isDispatching s"
    and "dispatch (Suc n) action s = Some (Inl e, s')"
  shows "(\<exists>s1. callReducer n (currentReducer s) (currentState s) action
                 (s\<lparr>isDispatching := True\<rparr>) = Some (Inl e, s1)) \<or>
         (\<exists>v s1. callReducer n (currentReducer s) (currentState s) action
                 (s\<lparr>isDispatching := True\<rparr>) = Some (Inr v, s1) \<and>
               notify n (nextListeners s) 0
                 (s\<lparr>currentReducer := currentReducer s1, currentState := v,
                    currentListeners := nextListeners s\<rparr>) = Some (Inl e, s'))"
proof -
  let ?c = "callReducer n (currentReducer s) (currentState s) action (s\<lparr>isDispatching := True\<rparr>)"
  from assms obtain r s1 where C: "?c = Some (r, s1)"
    by (cases ?c) (auto simp: dispatch_Suc dispatchBody_def callReducer_def)
  show ?thesis
  proof (cases r)
    case (Inl e')
    with dispatch_reducer_throws[OF assms(1,2,3), of n e' s1] C assms(4) show ?thesis by simp
  next
    case (Inr v)
    with dispatch_reduced[OF assms(1,2,3), of n v s1] C assms(4)
    have "andThen (notify n (nextListeners s) 0
                (s\<lparr>currentReducer := currentReducer s1, currentState := v,
                   currentListeners := nextListeners s\<rparr>))
       (\<lambda>u s5. Some (Inr action, s5)) = Some (Inl e, s')" by simp
    then have "notify n (nextListeners s) 0
                (s\<lparr>currentReducer := currentReducer s1, currentState := v,
                   currentListeners := nextListeners s\<rparr>) = Some (Inl e, s')"
      by (cases rule: andThen_SomeE) simp_all
    with C Inr show ?thesis by simp
  qed
qed

lemma nested_dispatch_in_reducer:
  assumes "isPlainObject action" "getProp action ''type'' \<noteq> VUndefined" "\<not> isDispatching s"
    and "currentReducer s = Reducer (CDispatch b # cs) f"
    and "isPlainObject b" "getProp b ''type'' \<noteq> VUndefined"
  shows "dispatch (Suc (Suc (Suc (Suc (Suc n))))) action s = Some (Inl ReducersMayNotDispatch, s)"
proof -
  have "callReducer (Suc (Suc (Suc (Suc n)))) (currentReducer s) (currentState s) action
          (s\<lparr>isDispatching := True\<rparr>)
        = Some (Inl ReducersMayNotDispatch, s\<lparr>isDispatching := True\<rparr>)"
    using assms(4,5,6) by (simp add: callReducer_def andThen_def dispatchBody_def)
  from dispatch_reducer_throws[OF assms(1,2,3) this] show ?thesis by simp
qed

lemma listener_dispatch:
  "callListener (Suc (Suc (Suc n))) (Listener ident (CDispatch b # cs)) s =
     andThen (dispatch n b (s\<lparr>notified := notified s @ [ident]\<rparr>))
       (\<lambda>u s1. runScript (Suc n) cs s1)"
  by (simp add: callListener_def dispatch_def runScript_def)



text \<open>
  C5 as stated fails in both directions of its second half: a dispatch of a plain action with
  a type, with the flag clear, throws when the reducer throws; and a dispatch issued by a
  listener while it is notified is carried out (the state is 2 after one outer dispatch).
\<close>

theorem dispatch_raises_iff_counterexample:
  "isPlainObject BAD \<and> getProp BAD ''type'' \<noteq> VUndefined \<and> \<not> isDispatching pickyStore \<and>
   returned (dispatch 9 BAD pickyStore) = Some (Inl (UserError ''bad action'')) \<and>
   map listenerId (arrays redispatchStore (nextListeners redispatchStore)) = [3] \<and>
   currentState redispatchStore = VNum 0 \<and>
   returned (dispatch 9 INC redispatchStore) = Some (Inr INC) \<and>
   logAfter (dispatch 9 INC redispatchStore) = Some [3] \<and>
   stateAfter (dispatch 9 INC redispatchStore) = Some (VNum 2)"
  by code_simp

text \<open>
  C10. While the flag is set, \<^verbatim>\<open>replaceReducer\<close> with a function throws the nested-dispatch
  error of its replace transition, and the store it leaves has the new reducer and
  nothing else changed: the reducer is swapped, no transition is made.
\<close>

theorem replaceReducer_reentry:
  "isDispatching s \<Longrightarrow>
   replaceReducer (Suc (Suc n)) (Fn nextReducer) s =
     Some (Inl ReducersMayNotDispatch, s\<lparr>currentReducer := nextReducer\<rparr>)"
  by (simp add: replaceReducer_def replaceReducerBody_def dispatchBody_def andThen_def
      ActionTypes_REPLACE_def)

theorem replaceReducer_reentry_witness:
  "isDispatching (swappingStore\<lparr>isDispatching := True\<rparr>) \<and>
   replaceReducer 2 (Fn counter) (swappingStore\<lparr>isDispatching := True\<rparr>) =
     Some (Inl ReducersMayNotDispatch,
           swappingStore\<lparr>isDispatching := True, currentReducer := counter\<rparr>) \<and>
   currentState swappingStore = VStr ''old'' \<and>
   stateAfter (dispatch 9 INC swappingStore) = Some (VNum 1)"
proof -
  have "currentState swappingStore = VStr ''old'' \<and>
   stateAfter (dispatch 9 INC swappingStore) = Some (VNum 1)"
    by code_simp
  with replaceReducer_reentry[of "swappingStore\<lparr>isDispatching := True\<rparr>" 0 counter]
  show ?thesis by (simp add: eval_nat_numeral)
qed

section \<open>Replacing the reducer, constructing a store\<close>

lemma callReducer_quiet:
  assumes "callReducer n r st action s = Some (x, s1)" and "list_all quietCmd (reducerBody r)"
  shows "sameCore s s1"
proof (cases r)
  case (Reducer body f)
  show ?thesis
  proof (cases n)
    case 0
    with assms show ?thesis by (simp add: callReducer_def)
  next
    case (Suc k)
    with assms Reducer have "\<exists>x'. exec k (RunScript body) s = Some (x', s1)"
      by (auto simp: callReducer_def elim!: andThen_SomeE split: sum.splits)
    then obtain x' where "exec k (RunScript body) s = Some (x', s1)" ..
    from stillD[OF exec_still this] assms(2) Reducer show ?thesis by simp
  qed
qed

lemma replaceReducer_Suc:
  "replaceReducer (Suc n) nextReducer s = replaceReducerBody (exec n) nextReducer s"
  by (simp add: replaceReducer_def)

lemma replaceReducer_dispatch:
  "replaceReducer (Suc n) (Fn r) s =
     andThen (dispatch n REPLACE (s\<lparr>currentReducer := r\<rparr>)) (\<lambda>v s1. Some (Inr VUndefined, s1))"
  by (simp add: replaceReducer_Suc replaceReducerBody_def dispatch_def REPLACE_def)

lemma REPLACE_ok: "isPlainObject REPLACE" "getProp REPLACE ''type'' \<noteq> VUndefined"
  by (simp_all add: REPLACE_def ActionTypes_REPLACE_def)

lemma INIT_ok: "isPlainObject INIT" "getProp INIT ''type'' \<noteq> VUndefined"
  by (simp_all add: INIT_def ActionTypes_INIT_def)

lemma andThen_assoc_ret:
  "andThen (andThen m (\<lambda>u s. Some (Inr (f u), s))) (\<lambda>v s. Some (Inr (g v), s)) =
   andThen m (\<lambda>u s. Some (Inr (g (f u)), s))"
  by (auto simp: andThen_def split: option.splits sum.splits prod.splits)

lemma replaceReducer_reduced:
  assumes "\<not> isDispatching s" and "wellFormed s"
    and "callReducer n r2 (currentState s) REPLACE
           (s\<lparr>currentReducer := r2, isDispatching := True\<rparr>) = Some (Inr v, s1)"
  shows "replaceReducer (Suc (Suc n)) (Fn r2) s =
     andThen (notifySnapshot n (arrays s (nextListeners s))
                (s\<lparr>currentReducer := currentReducer s1, currentState := v,
                   currentListeners := nextListeners s\<rparr>))
       (\<lambda>u s'. Some (Inr VUndefined, s'))"
proof -
  let ?s0 = "s\<lparr>currentReducer := r2\<rparr>"
  let ?s4 = "s\<lparr>currentReducer := currentReducer s1, currentState := v,
                 currentListeners := nextListeners s\<rparr>"
  have R: "callReducer n (currentReducer ?s0) (currentState ?s0) REPLACE
             (?s0\<lparr>isDispatching := True\<rparr>) = Some (Inr v, s1)"
    using assms(3) by simp
  have "dispatch (Suc n) REPLACE ?s0 =
      andThen (notify n (nextListeners ?s0) 0
                (?s0\<lparr>currentReducer := currentReducer s1, currentState := v,
                   currentListeners := nextListeners ?s0\<rparr>))
       (\<lambda>u s5. Some (Inr REPLACE, s5))"
    using dispatch_reduced[OF REPLACE_ok _ R] assms(1) by simp
  moreover have W4: "wellFormed ?s4" using assms(2) by (simp add: wellFormed_def)
  have "notify n (nextListeners s) 0 ?s4 = notifySnapshot n (arrays s (nextListeners s)) ?s4"
    using notify_snapshot[OF W4, of "nextListeners s" n 0] by simp
  ultimately have "dispatch (Suc n) REPLACE ?s0 =
      andThen (notifySnapshot n (arrays s (nextListeners s)) ?s4) (\<lambda>u s5. Some (Inr REPLACE, s5))"
    by simp
  then show ?thesis
    by (simp add: replaceReducer_dispatch andThen_assoc_ret[where f="\<lambda>u. REPLACE" and g="\<lambda>v. VUndefined"])
qed

text \<open>
  C8, amended. \<^verbatim>\<open>replaceReducer\<close> with something that is not a function throws and leaves
  the store as it was. With a reducer \<open>r2\<close> that calls neither \<^verbatim>\<open>dispatch\<close> nor
  \<^verbatim>\<open>replaceReducer\<close> and returns \<open>v\<close> on the prior state and the replace action, on a
  well-formed store with the flag clear, it installs \<open>r2\<close>, stores \<open>v\<close> and notifies the
  listeners registered before the call, the registry being otherwise untouched; when these
  return and are quiet, \<^verbatim>\<open>replaceReducer\<close> returns, the reducer is \<open>r2\<close> and
  \<^verbatim>\<open>getState()\<close> gives \<open>v\<close>.
\<close>

theorem replaceReducer_contract:
  "replaceReducer (Suc n) (Val x) s = Some (Inl ExpectedNextReducerFunction, s) \<and>
   (\<not> isDispatching s \<and> wellFormed s \<and> list_all quietCmd (reducerBody r2) \<and>
    callReducer n r2 (currentState s) REPLACE
      (s\<lparr>currentReducer := r2, isDispatching := True\<rparr>) = Some (Inr v, s1) \<longrightarrow>
    (let snapshot = arrays s (nextListeners s);
         s4 = s\<lparr>currentReducer := r2, currentState := v,
                currentListeners := nextListeners s\<rparr>
     in replaceReducer (Suc (Suc n)) (Fn r2) s =
          andThen (notifySnapshot n snapshot s4) (\<lambda>u s'. Some (Inr VUndefined, s')) \<and>
        (\<forall>u s'. notifySnapshot n snapshot s4 = Some (Inr u, s') \<and>
                 list_all quietListener snapshot \<longrightarrow>
           (\<forall>m. Suc (Suc n) \<le> m \<longrightarrow>
                replaceReducer m (Fn r2) s = Some (Inr VUndefined, s')) \<and>
           currentReducer s' = r2 \<and> getState s' = (Inr v, s'))))"
proof (intro conjI impI)
  show "replaceReducer (Suc n) (Val x) s = Some (Inl ExpectedNextReducerFunction, s)"
    by (simp add: replaceReducer_Suc replaceReducerBody_def)
next
  assume A: "\<not> isDispatching s \<and> wellFormed s \<and> list_all quietCmd (reducerBody r2) \<and>
    callReducer n r2 (currentState s) REPLACE
      (s\<lparr>currentReducer := r2, isDispatching := True\<rparr>) = Some (Inr v, s1)"
  then have F: "\<not> isDispatching s" and W: "wellFormed s"
    and Q: "list_all quietCmd (reducerBody r2)"
    and R: "callReducer n r2 (currentState s) REPLACE
      (s\<lparr>currentReducer := r2, isDispatching := True\<rparr>) = Some (Inr v, s1)"
    by blast+
  let ?snapshot = "arrays s (nextListeners s)"
  let ?s4 = "s\<lparr>currentReducer := r2, currentState := v, currentListeners := nextListeners s\<rparr>"
  from callReducer_quiet[OF R Q] have C: "currentReducer s1 = r2"
    by (simp add: sameCore_def)
  have E: "replaceReducer (Suc (Suc n)) (Fn r2) s =
          andThen (notifySnapshot n ?snapshot ?s4) (\<lambda>u s'. Some (Inr VUndefined, s'))"
    using replaceReducer_reduced[OF F W R] unfolding C .
  have L: "\<forall>u s'. notifySnapshot n ?snapshot ?s4 = Some (Inr u, s') \<and>
                 list_all quietListener ?snapshot \<longrightarrow>
           (\<forall>m. Suc (Suc n) \<le> m \<longrightarrow>
                replaceReducer m (Fn r2) s = Some (Inr VUndefined, s')) \<and>
           currentReducer s' = r2 \<and> getState s' = (Inr v, s')"
  proof (intro allI impI)
    fix u s'
    assume "notifySnapshot n ?snapshot ?s4 = Some (Inr u, s') \<and>
                 list_all quietListener ?snapshot"
    then have N: "notifySnapshot n ?snapshot ?s4 = Some (Inr u, s')"
      and QL: "list_all quietListener ?snapshot" by blast+
    from E N have X: "exec (Suc (Suc n)) (ReplaceReducer (Fn r2)) s = Some (Inr VUndefined, s')"
      by (simp add: replaceReducer_def andThen_def)
    have M: "\<forall>m. Suc (Suc n) \<le> m \<longrightarrow>
                replaceReducer m (Fn r2) s = Some (Inr VUndefined, s')"
    proof (intro allI impI)
      fix m
      assume "Suc (Suc n) \<le> m"
      from exec_more_fuel[OF X this]
      show "replaceReducer m (Fn r2) s = Some (Inr VUndefined, s')"
        by (simp add: replaceReducer_def)
    qed
    from notifySnapshot_quiet[OF N QL] F
    have "currentReducer s' = r2" "currentState s' = v" "\<not> isDispatching s'"
      by simp_all
    with M show "(\<forall>m. Suc (Suc n) \<le> m \<longrightarrow>
                replaceReducer m (Fn r2) s = Some (Inr VUndefined, s')) \<and>
           currentReducer s' = r2 \<and> getState s' = (Inr v, s')"
      by (simp add: getState_def)
  qed
  show "let snapshot = arrays s (nextListeners s);
         s4 = s\<lparr>currentReducer := r2, currentState := v,
                currentListeners := nextListeners s\<rparr>
     in replaceReducer (Suc (Suc n)) (Fn r2) s =
          andThen (notifySnapshot n snapshot s4) (\<lambda>u s'. Some (Inr VUndefined, s')) \<and>
        (\<forall>u s'. notifySnapshot n snapshot s4 = Some (Inr u, s') \<and>
                 list_all quietListener snapshot \<longrightarrow>
           (\<forall>m. Suc (Suc n) \<le> m \<longrightarrow>
                replaceReducer m (Fn r2) s = Some (Inr VUndefined, s')) \<and>
           currentReducer s' = r2 \<and> getState s' = (Inr v, s'))"
    unfolding Let_def using E L by (rule conjI)
qed

text \<open>
  C8 as stated fails: a listener that unsubscribes itself and dispatches runs during the
  replace transition, and when \<^verbatim>\<open>replaceReducer\<close> returns the state is not what the new
  reducer made of the prior state and the replace action (1), but 3. And a reducer that
  calls \<^verbatim>\<open>replaceReducer(counter)\<close> while it runs is not the active reducer after it
  was installed: the next dispatch counts.
\<close>

theorem replaceReducer_contract_counterexample:
  "\<not> isDispatching redispatchStore \<and> currentState redispatchStore = VNum 0 \<and>
   reducerFunction doubler (VNum 0) REPLACE = Inr (VNum 1) \<and>
   returned (replaceReducer 12 (Fn doubler) redispatchStore) = Some (Inr VUndefined) \<and>
   stateAfter (replaceReducer 12 (Fn doubler) redispatchStore) = Some (VNum 3) \<and>
   reducerFunction swappingReducer (VStr ''old'') INC = Inr (VStr ''old'') \<and>
   returned (replaceReducer 12 (Fn swappingReducer) counterStore) = Some (Inr VUndefined) \<and>
   stateAfter (replaceReducer 12 (Fn swappingReducer) counterStore) = Some (VStr ''old'') \<and>
   (case replaceReducer 12 (Fn swappingReducer) counterStore of
      None \<Rightarrow> None
    | Some (r, s) \<Rightarrow> stateAfter (dispatch 9 INC s)) = Some (VNum 1)"
  by code_simp

theorem replaceReducer_contract_witness:
  "replaceReducer 1 (Val (VNum 7)) exampleStore
     = Some (Inl ExpectedNextReducerFunction, exampleStore) \<and>
   \<not> isDispatching exampleStore \<and> wellFormed exampleStore \<and>
   list_all quietCmd (reducerBody doubler) \<and>
   list_all quietListener (arrays exampleStore (nextListeners exampleStore)) \<and>
   currentState exampleStore = VNum 0 \<and>
   reducerFunction doubler (VNum 0) REPLACE = Inr (VNum 1) \<and>
   returned (replaceReducer 12 (Fn doubler) exampleStore) = Some (Inr VUndefined) \<and>
   stateAfter (replaceReducer 12 (Fn doubler) exampleStore) = Some (VNum 1) \<and>
   map_option currentReducer (storeAfter (replaceReducer 12 (Fn doubler) exampleStore))
     = Some doubler"
proof -
  have W: "wellFormed exampleStore" "\<not> isDispatching exampleStore"
    "currentState exampleStore = VNum 0"
    by (simp_all add: wellFormed_def exampleStore_def)
  have Q: "list_all quietCmd (reducerBody doubler)"
    "list_all quietListener (arrays exampleStore (nextListeners exampleStore))"
    "reducerFunction doubler (VNum 0) REPLACE = Inr (VNum 1)"
    by (simp_all add: doubler_def exampleStore_def quietListener_def subscribingListener_def)
  have R: "callReducer 8 doubler (currentState exampleStore) REPLACE
             (exampleStore\<lparr>currentReducer := doubler, isDispatching := True\<rparr>)
           = Some (Inr (VNum 1), exampleStore\<lparr>currentReducer := doubler, isDispatching := True\<rparr>)"
    by (simp add: exampleStore_def doubler_def eval_nat_numeral callReducer_pure)
  let ?s4 = "exampleStore\<lparr>currentReducer := doubler, currentState := VNum 1,
      currentListeners := nextListeners exampleStore\<rparr>"
  have "case notifySnapshot 8 (arrays exampleStore (nextListeners exampleStore)) ?s4 of
          Some (Inr u, s') \<Rightarrow> True | _ \<Rightarrow> False"
    by code_simp
  then obtain u s' where N: "notifySnapshot 8 (arrays exampleStore (nextListeners exampleStore)) ?s4
      = Some (Inr u, s')"
    by (auto split: option.splits sum.splits prod.splits)
  note T = replaceReducer_contract[where n=0 and x="VNum 7" and s=exampleStore and ?r2.0=doubler]
  have T1: "replaceReducer 1 (Val (VNum 7)) exampleStore
     = Some (Inl ExpectedNextReducerFunction, exampleStore)"
    using T by simp
  note U = replaceReducer_contract[where n=8 and s=exampleStore and ?r2.0=doubler
      and v="VNum 1" and ?s1.0="exampleStore\<lparr>currentReducer := doubler, isDispatching := True\<rparr>",
      THEN conjunct2, rule_format, OF conjI[OF W(2) conjI[OF W(1) conjI[OF Q(1) R]]],
      unfolded Let_def, THEN conjunct2, rule_format, OF conjI[OF N Q(2)]]
  have "10 \<le> (12::nat)" by simp
  with U have "replaceReducer 12 (Fn doubler) exampleStore = Some (Inr VUndefined, s')"
    "currentReducer s' = doubler" "getState s' = (Inr (VNum 1), s')"
    by (simp_all add: eval_nat_numeral)
  note this T1
  moreover from this have "currentState s' = VNum 1"
    by (auto simp: getState_def split: if_splits)
  ultimately show ?thesis using W Q
    by (simp add: returned_def stateAfter_def storeAfter_def)
qed

lemma init_dispatch:
  assumes "callReducer n r p INIT ((initialStore r p)\<lparr>isDispatching := True\<rparr>)
             = Some (Inr v, s1)"
  shows "dispatch (Suc n) INIT (initialStore r p) =
           Some (Inr INIT, (initialStore r p)\<lparr>currentReducer := currentReducer s1,
                                                 currentState := v\<rparr>)"
proof -
  let ?s0 = "initialStore r p"
  have F: "\<not> isDispatching ?s0" "currentReducer ?s0 = r" "currentState ?s0 = p"
    "nextListeners ?s0 = 0" "currentListeners ?s0 = 0" "arrays ?s0 0 = []"
    by (simp_all add: initialStore_def)
  from assms obtain k where K: "n = Suc k"
    by (cases n) (simp_all add: callReducer_def)
  have R: "callReducer n (currentReducer ?s0) (currentState ?s0) INIT
             (?s0\<lparr>isDispatching := True\<rparr>) = Some (Inr v, s1)"
    using assms F by simp
  let ?s4 = "?s0\<lparr>currentReducer := currentReducer s1, currentState := v,
                  currentListeners := nextListeners ?s0\<rparr>"
  have S: "?s4 = ?s0\<lparr>currentReducer := currentReducer s1, currentState := v\<rparr>"
    by (simp add: initialStore_def)
  have "notify n (nextListeners ?s0) 0 ?s4 = Some (Inr VUndefined, ?s4)"
    unfolding K by (simp add: notify_def notifyBody_def initialStore_def)
  with dispatch_reduced[OF INIT_ok F(1) R]
  have "dispatch (Suc n) INIT ?s0 = Some (Inr INIT, ?s4)"
    by (simp add: andThen_def)
  then show ?thesis
    unfolding S .
qed

lemma createStoreBase_init:
  assumes "callReducer n r p INIT ((initialStore r p)\<lparr>isDispatching := True\<rparr>)
             = Some (Inr v, s1)"
  shows "createStoreBase (Suc n) (Fn r) p =
           Some (Inr ((initialStore r p)\<lparr>currentReducer := currentReducer s1,
                                          currentState := v\<rparr>))"
  using init_dispatch[OF assms] by (simp add: createStoreBase_def INIT_def)

text \<open>
  C9 as stated fails: \<^verbatim>\<open>createStore(counter, 5)\<close> has no enhancer, and \<^verbatim>\<open>getState()\<close>
  gives 5 right after, where the counter makes 0 of \<^verbatim>\<open>undefined\<close> and the init action.
\<close>

theorem createStore_init_counterexample:
  "createdState (createStore 3 (Fn counter) (Val (VNum 5)) (Val VUndefined)) = Some (VNum 5) \<and>
   reducerFunction counter VUndefined INIT = Inr (VNum 0)"
  by code_simp

text \<open>
  C9, amended. Constructing a store without enhancer from a reducer \<open>r\<close> and a preloaded
  state \<open>p\<close> (\<^verbatim>\<open>undefined\<close> when none is given) makes one transition, the dispatch of the
  init action on the initial store: when the reducer returns \<open>v\<close> on \<open>p\<close> and the init
  action, the store returned is the one this dispatch leaves, the initial one with the state
  \<open>v\<close>, no listener and an empty log, and \<^verbatim>\<open>getState()\<close> gives \<open>v\<close>.
\<close>

theorem createStore_init:
  assumes "callReducer n r p INIT ((initialStore r p)\<lparr>isDispatching := True\<rparr>)
             = Some (Inr v, s1)"
  shows "let s = (initialStore r p)\<lparr>currentReducer := currentReducer s1, currentState := v\<rparr>
         in createStore (Suc n) (Fn r) (Val p) (Val VUndefined) = Some (Inr (Plain s)) \<and>
            dispatch (Suc n) INIT (initialStore r p) = Some (Inr INIT, s) \<and>
            getState s = (Inr v, s) \<and> notified s = [] \<and>
            arrays s (nextListeners s) = []"
proof -
  let ?s = "(initialStore r p)\<lparr>currentReducer := currentReducer s1, currentState := v\<rparr>"
  have B: "createStoreBase (Suc n) (Fn r) p = Some (Inr ?s)"
    using assms by (rule createStoreBase_init)
  then have C: "createStore (Suc n) (Fn r) (Val p) (Val VUndefined) = Some (Inr (Plain ?s))"
    by (simp add: createStore_def)
  have D: "dispatch (Suc n) INIT (initialStore r p) = Some (Inr INIT, ?s)"
    using assms by (rule init_dispatch)
  have G: "getState ?s = (Inr v, ?s)" "notified ?s = []" "arrays ?s (nextListeners ?s) = []"
    by (simp_all add: getState_def initialStore_def)
  from C D G show ?thesis by (simp add: Let_def)
qed

theorem createStore_init_witness:
  "returned (callReducer 2 counter VUndefined INIT
      ((initialStore counter VUndefined)\<lparr>isDispatching := True\<rparr>)) = Some (Inr (VNum 0)) \<and>
   createStore 3 (Fn counter) (Val VUndefined) (Val VUndefined) =
     Some (Inr (Plain ((initialStore counter VUndefined)\<lparr>currentState := VNum 0\<rparr>))) \<and>
   createdState (createStore 3 (Fn counter) (Val VUndefined) (Val VUndefined)) = Some (VNum 0)"
proof -
  let ?s0 = "initialStore counter VUndefined"
  have R: "callReducer 2 counter VUndefined INIT (?s0\<lparr>isDispatching := True\<rparr>)
      = Some (Inr (VNum 0), ?s0\<lparr>isDispatching := True\<rparr>)"
    by (simp add: counter_def eval_nat_numeral callReducer_pure INIT_def ActionTypes_INIT_def)
  have "currentReducer (?s0\<lparr>isDispatching := True\<rparr>) = currentReducer ?s0" by simp
  with createStore_init[OF R]
  have "createStore 3 (Fn counter) (Val VUndefined) (Val VUndefined) =
     Some (Inr (Plain (?s0\<lparr>currentState := VNum 0\<rparr>)))"
    by (simp add: Let_def eval_nat_numeral)
  moreover from this
  have "createdState (createStore 3 (Fn counter) (Val VUndefined) (Val VUndefined)) = Some (VNum 0)"
    by (simp add: getState_def initialStore_def)
  ultimately show ?thesis using R by (simp add: returned_def)
qed

section \<open>The pipeline\<close>

lemma composedDispatch_foldr:
  "composedDispatch (Suc n) middlewares =
     foldr (\<lambda>middleware next. wrap middleware
              (mkMiddlewareAPI (composedDispatch n middlewares)) next)
       middlewares (storeDispatch n)"
  by (simp add: compose_foldr foldr_map comp_def)

lemma storeGetState_same: "storeGetState m = Some (r, m') \<Longrightarrow> m' = m"
  by (auto simp: storeGetState_def getState_def split: if_splits)

lemma forwarder_uninstalled:
  "\<not> installed m \<Longrightarrow> forwarder d action m = Some (Inl DispatchWhileConstructing, m)"
  by (simp add: forwarder_def placeholder_def)

lemma runFactoryCmd_same:
  "\<not> installed m \<Longrightarrow> runFactoryCmd (mkMiddlewareAPI d) c m = Some (r, m') \<Longrightarrow> m' = m"
proof (induction c arbitrary: r)
  case MGetState
  then show ?case by (auto simp: mkMiddlewareAPI_def dest: storeGetState_same)
next
  case (MDispatch action)
  then show ?case by (simp add: mkMiddlewareAPI_def forwarder_uninstalled)
next
  case (MThrow msg)
  then show ?case by simp
next
  case (MTry c)
  then show ?case by (auto split: option.splits)
qed

lemma runFactory_same:
  "\<not> installed m \<Longrightarrow> runFactory (mkMiddlewareAPI d) cs m = Some (r, m') \<Longrightarrow> m' = m"
proof (induction cs)
  case Nil
  then show ?case by simp
next
  case (Cons c cs)
  show ?case
  proof (cases "runFactoryCmd (mkMiddlewareAPI d) c m")
    case None
    with Cons.prems show ?thesis by simp
  next
    case (Some y)
    obtain x m1 where Y: "y = (x, m1)" by (cases y)
    from runFactoryCmd_same[OF Cons.prems(1)] Some Y have "m1 = m" by simp
    with Cons Some Y show ?thesis by (cases x) simp_all
  qed
qed

lemma instantiate_same:
  "\<not> installed m \<Longrightarrow> instantiate (mkMiddlewareAPI d) ms m = Some (r, m') \<Longrightarrow> m' = m"
proof (induction ms)
  case Nil
  then show ?case by simp
next
  case (Cons mw ms)
  show ?case
  proof (cases "runFactory (mkMiddlewareAPI d) (construct mw) m")
    case None
    with Cons.prems show ?thesis by simp
  next
    case (Some y)
    obtain x m1 where Y: "y = (x, m1)" by (cases y)
    from runFactory_same[OF Cons.prems(1)] Some Y have "m1 = m" by simp
    with Cons Some Y show ?thesis by (cases x) simp_all
  qed
qed

text \<open>
  C4. The dispatch that the enhancer installs is the wrapper of the leftmost middleware
  around the wrapper of the next one, and so on; the \<^verbatim>\<open>next\<close> of the rightmost middleware is
  the dispatch of the base store. For \<open>[A, B]\<close> it is \<open>A\<close>'s wrapper applied to \<open>B\<close>'s
  wrapper applied to the base dispatch: an action enters \<open>A\<close>'s function first, \<open>B\<close>'s
  function is what \<open>A\<close> calls as \<^verbatim>\<open>next\<close>, and what \<open>B\<close> returns is what that call returns
  to \<open>A\<close>.
\<close>

theorem middleware_ordering:
  "(let api = mkMiddlewareAPI (composedDispatch n [A, B])
    in composedDispatch (Suc n) [A, B] = wrap A api (wrap B api (storeDispatch n))) \<and>
   (let api = mkMiddlewareAPI (composedDispatch n middlewares)
    in composedDispatch (Suc n) middlewares =
         foldr (\<lambda>middleware next. wrap middleware api next) middlewares (storeDispatch n)) \<and>
   (\<forall>h. applyMiddleware n middlewares create reducer preloadedState = Some (Inr h) \<longrightarrow>
        enhDispatch h = composedDispatch (Suc n) middlewares \<and> installed (enhState h))"
proof (intro conjI allI impI)
  show "let api = mkMiddlewareAPI (composedDispatch n [A, B])
    in composedDispatch (Suc n) [A, B] = wrap A api (wrap B api (storeDispatch n))"
    by (simp add: compose_def Let_def)
next
  show "let api = mkMiddlewareAPI (composedDispatch n middlewares)
    in composedDispatch (Suc n) middlewares =
         foldr (\<lambda>middleware next. wrap middleware api next) middlewares (storeDispatch n)"
    unfolding Let_def by (rule composedDispatch_foldr)
next
  fix h
  assume H: "applyMiddleware n middlewares create reducer preloadedState = Some (Inr h)"
  then show "enhDispatch h = composedDispatch (Suc n) middlewares"
    by (auto simp: applyMiddleware_def Let_def split: option.splits sum.splits prod.splits)
  from H show "installed (enhState h)"
    by (auto simp: applyMiddleware_def Let_def split: option.splits sum.splits prod.splits)
qed

theorem middleware_ordering_witness:
  "composedDispatch 6 [tagger ''A'', tagger ''B''] =
     wrap (tagger ''A'') (mkMiddlewareAPI (composedDispatch 5 [tagger ''A'', tagger ''B'']))
       (wrap (tagger ''B'') (mkMiddlewareAPI (composedDispatch 5 [tagger ''A'', tagger ''B'']))
          (storeDispatch 5)) \<and>
   mreturned (dispatchOn (applyMiddleware 5 [tagger ''A'', tagger ''B''] (createStoreBase 5)
                (Fn recorder) VUndefined) GO)
     = Some (Inr (VObject [(''by'', VStr ''A''),
                    (''inner'', VObject [(''by'', VStr ''B''),
                       (''inner'', VObject [(''type'', VStr ''GO''), (''path'', VStr ''AB'')])])])) \<and>
   mstateAfter (dispatchOn (applyMiddleware 5 [tagger ''A'', tagger ''B''] (createStoreBase 5)
                (Fn recorder) VUndefined) GO) = Some (VStr ''AB'') \<and>
   map_option (map_sum (\<lambda>e. e) (\<lambda>h. installed (enhState h)))
     (applyMiddleware 5 [tagger ''A'', tagger ''B''] (createStoreBase 5) (Fn recorder) VUndefined)
     = Some (Inr True)"
proof -
  have "case applyMiddleware 5 [tagger ''A'', tagger ''B''] (createStoreBase 5)
                (Fn recorder) VUndefined of Some (Inr h) \<Rightarrow> True | _ \<Rightarrow> False"
    by code_simp
  then obtain h where H: "applyMiddleware 5 [tagger ''A'', tagger ''B''] (createStoreBase 5)
                (Fn recorder) VUndefined = Some (Inr h)"
    by (auto split: option.splits sum.splits)
  from middleware_ordering[of 5 "tagger ''A''" "tagger ''B''" "[tagger ''A'', tagger ''B'']"
      "createStoreBase 5" "Fn recorder" VUndefined] H
  have I: "installed (enhState h)" by blast
  have "composedDispatch (Suc 5) [tagger ''A'', tagger ''B''] =
     wrap (tagger ''A'') (mkMiddlewareAPI (composedDispatch 5 [tagger ''A'', tagger ''B'']))
       (wrap (tagger ''B'') (mkMiddlewareAPI (composedDispatch 5 [tagger ''A'', tagger ''B'']))
          (storeDispatch 5))"
    using middleware_ordering[of 5 "tagger ''A''" "tagger ''B''"] by (simp add: Let_def)
  moreover have "Suc 5 = 6" by simp
  moreover have "mreturned (dispatchOn (applyMiddleware 5 [tagger ''A'', tagger ''B'']
                (createStoreBase 5) (Fn recorder) VUndefined) GO)
     = Some (Inr (VObject [(''by'', VStr ''A''),
                    (''inner'', VObject [(''by'', VStr ''B''),
                       (''inner'', VObject [(''type'', VStr ''GO''), (''path'', VStr ''AB'')])])]))"
    by code_simp
  moreover have "mstateAfter (dispatchOn (applyMiddleware 5 [tagger ''A'', tagger ''B'']
                (createStoreBase 5) (Fn recorder) VUndefined) GO) = Some (VStr ''AB'')"
    by code_simp
  ultimately show ?thesis using H I by simp
qed

text \<open>
  C7. As long as the composed dispatch is not installed, a call of the forwarder of the
  capability object throws the construction error and changes nothing, the base store
  included; running factories changes nothing either, so this holds during the whole
  assembly, which starts uninstalled. A middleware whose factory dispatches makes
  the assembly, and the construction through the enhancer, throw this error.
\<close>

theorem construction_dispatch_guard:
  "(\<not> installed m \<longrightarrow>
      apiDispatch (mkMiddlewareAPI d) action m = Some (Inl DispatchWhileConstructing, m) \<and>
      (\<forall>cs r m'. runFactory (mkMiddlewareAPI d) cs m = Some (r, m') \<longrightarrow> m' = m) \<and>
      (\<forall>ms r m'. instantiate (mkMiddlewareAPI d) ms m = Some (r, m') \<longrightarrow> m' = m) \<and>
      (\<forall>mw cs rest. construct mw = MDispatch action # cs \<longrightarrow>
         instantiate (mkMiddlewareAPI d) (mw # rest) m
           = Some (Inl DispatchWhileConstructing, m))) \<and>
   (\<forall>mw cs rest store.
      create reducer preloadedState = Some (Inr store) \<and>
      construct mw = MDispatch action # cs \<longrightarrow>
      applyMiddleware n (mw # rest) create reducer preloadedState
        = Some (Inl DispatchWhileConstructing))"
proof (intro conjI allI impI)
  assume U: "\<not> installed m"
  then show "apiDispatch (mkMiddlewareAPI d) action m = Some (Inl DispatchWhileConstructing, m)"
    by (simp add: mkMiddlewareAPI_def forwarder_uninstalled)
  fix mw :: middleware and cs rest
  assume "construct mw = MDispatch action # cs"
  with U show "instantiate (mkMiddlewareAPI d) (mw # rest) m
           = Some (Inl DispatchWhileConstructing, m)"
    by (simp add: mkMiddlewareAPI_def forwarder_uninstalled)
next
  fix cs r m'
  assume "\<not> installed m" and "runFactory (mkMiddlewareAPI d) cs m = Some (r, m')"
  then show "m' = m" by (rule runFactory_same)
next
  fix ms r m'
  assume "\<not> installed m" and "instantiate (mkMiddlewareAPI d) ms m = Some (r, m')"
  then show "m' = m" by (rule instantiate_same)
next
  fix mw :: middleware and cs rest store
  assume "create reducer preloadedState = Some (Inr store) \<and>
      construct mw = MDispatch action # cs"
  then show "applyMiddleware n (mw # rest) create reducer preloadedState
        = Some (Inl DispatchWhileConstructing)"
    by (simp add: applyMiddleware_def Let_def mkMiddlewareAPI_def forwarder_uninstalled)
qed

theorem construction_dispatch_guard_witness:
  "\<not> installed \<lparr>base = counterStore, installed = False\<rparr> \<and>
   apiDispatch (mkMiddlewareAPI (composedDispatch 5 [eager])) INC
     \<lparr>base = counterStore, installed = False\<rparr>
     = Some (Inl DispatchWhileConstructing, \<lparr>base = counterStore, installed = False\<rparr>) \<and>
   construct eager = [MDispatch INC] \<and>
   map_option (map_sum (\<lambda>e. e) (\<lambda>s. ())) (createStoreBase 5 (Fn counter) VUndefined)
     = Some (Inr ()) \<and>
   map_option (map_sum (\<lambda>e. e) (\<lambda>h. ()))
     (applyMiddleware 5 [eager] (createStoreBase 5) (Fn counter) VUndefined)
     = Some (Inl DispatchWhileConstructing) \<and>
   enhancedState (applyMiddleware 5 [cautious] (createStoreBase 5) (Fn counter) VUndefined)
     = Some (VNum 0)"
proof -
  let ?m = "\<lparr>base = counterStore, installed = False\<rparr>"
  have U: "\<not> installed ?m" by simp
  from construction_dispatch_guard[of ?m "composedDispatch 5 [eager]" INC] U
  have A: "apiDispatch (mkMiddlewareAPI (composedDispatch 5 [eager])) INC ?m
     = Some (Inl DispatchWhileConstructing, ?m)" by blast
  have E: "construct eager = [MDispatch INC]" by (simp add: eager_def)
  have "case createStoreBase 5 (Fn counter) VUndefined of Some (Inr s) \<Rightarrow> True | _ \<Rightarrow> False"
    by code_simp
  then obtain st where C: "createStoreBase 5 (Fn counter) VUndefined = Some (Inr st)"
    by (auto split: option.splits sum.splits)
  from construction_dispatch_guard[of ?m "composedDispatch 5 [eager]" INC "createStoreBase 5"
      "Fn counter" VUndefined 5] C E
  have B: "applyMiddleware 5 [eager] (createStoreBase 5) (Fn counter) VUndefined
        = Some (Inl DispatchWhileConstructing)" by blast
  have "enhancedState (applyMiddleware 5 [cautious] (createStoreBase 5) (Fn counter) VUndefined)
     = Some (VNum 0)"
    by code_simp
  with A B C E U show ?thesis by simp
qed

section \<open>The flag is the same after every call\<close>

lemma keepingD:
  "keeping self \<Longrightarrow> self c s = Some (r, s') \<Longrightarrow> isDispatching s' = isDispatching s"
  unfolding keeping_def by blast

lemma seq_keeping:
  assumes K: "keeping self"
    and R: "andThen (self c1 s) (\<lambda>u s1. self c2 s1) = Some (r, s')"
  shows "isDispatching s' = isDispatching s"
  using R
proof (cases rule: andThen_SomeE)
  case (throw e)
  from keepingD[OF K throw(1)] show ?thesis .
next
  case (ret v s1)
  from keepingD[OF K ret(1)] keepingD[OF K ret(2)] show ?thesis by simp
qed

lemma dispatchBody_keeping:
  assumes K: "keeping self" and R: "dispatchBody self action s = Some (r, s')"
  shows "isDispatching s' = isDispatching s"
proof (cases "\<not> isPlainObject action \<or> getProp action ''type'' = VUndefined \<or> isDispatching s")
  case True
  with R show ?thesis by (auto simp: dispatchBody_def split: if_splits)
next
  case False
  let ?c = "CallReducer (currentReducer s) (currentState s) action"
  let ?s = "s\<lparr>isDispatching := True\<rparr>"
  from R False obtain y where Y: "self ?c ?s = Some y"
    by (cases "self ?c ?s") (auto simp: dispatchBody_def)
  obtain x s1 where P: "y = (x, s1)" by (cases y)
  show ?thesis
  proof (cases x)
    case (Inl e)
    with R False Y P show ?thesis by (auto simp: dispatchBody_def)
  next
    case (Inr v)
    let ?s4 = "s1\<lparr>currentState := v, isDispatching := False, currentListeners := nextListeners s1\<rparr>"
    from R False Y P Inr
    have "andThen (self (Notify (nextListeners s1) 0) ?s4) (\<lambda>u s5. Some (Inr action, s5))
            = Some (r, s')"
      by (simp add: dispatchBody_def Let_def)
    then have "\<exists>r'. self (Notify (nextListeners s1) 0) ?s4 = Some (r', s')"
      by (auto elim!: andThen_SomeE)
    then obtain r' where "self (Notify (nextListeners s1) 0) ?s4 = Some (r', s')" ..
    from keepingD[OF K this] False show ?thesis by simp
  qed
qed

lemma notifyBody_keeping:
  assumes K: "keeping self" and R: "notifyBody self a i s = Some (r, s')"
  shows "isDispatching s' = isDispatching s"
proof (cases "i < length (arrays s a)")
  case False
  with R show ?thesis by (simp add: notifyBody_def)
next
  case True
  with R have "andThen (self (CallListener (arrays s a ! i)) s)
             (\<lambda>u s1. self (Notify a (Suc i)) s1) = Some (r, s')"
    by (simp add: notifyBody_def)
  from seq_keeping[OF K this] show ?thesis .
qed

lemma callListenerBody_keeping:
  assumes K: "keeping self" and R: "callListenerBody self l s = Some (r, s')"
  shows "isDispatching s' = isDispatching s"
proof (cases l)
  case (Listener ident body)
  with R have "self (RunScript body) (s\<lparr>notified := notified s @ [ident]\<rparr>) = Some (r, s')"
    by simp
  from keepingD[OF K this] show ?thesis by simp
qed

lemma callReducerBody_keeping:
  assumes K: "keeping self" and R: "callReducerBody self rd st action s = Some (r, s')"
  shows "isDispatching s' = isDispatching s"
proof (cases rd)
  case (Reducer body f)
  with R have "\<exists>r'. self (RunScript body) s = Some (r', s')"
    by (auto elim!: andThen_SomeE split: sum.splits)
  then show ?thesis using keepingD[OF K] by blast
qed

lemma runScriptBody_keeping:
  assumes K: "keeping self" and R: "runScriptBody self cs s = Some (r, s')"
  shows "isDispatching s' = isDispatching s"
proof (cases cs)
  case Nil
  with R show ?thesis by simp
next
  case (Cons c cs')
  with R have "andThen (self (RunCmd c) s) (\<lambda>u s1. self (RunScript cs') s1) = Some (r, s')"
    by simp
  from seq_keeping[OF K this] show ?thesis .
qed

lemma runCmdBody_keeping:
  assumes K: "keeping self" and R: "runCmdBody self c s = Some (r, s')"
  shows "isDispatching s' = isDispatching s"
proof (cases c)
  case CGetState
  with R show ?thesis by (auto simp: getState_def split: if_splits)
next
  case (CSubscribe l)
  with R have "\<exists>r'. subscribe l s = (r', s')" by (auto split: prod.splits sum.splits)
  then show ?thesis using sameCore_subscribe by (auto simp: sameCore_def)
next
  case (CUnsubscribe h)
  with R have "\<exists>r'. unsubscribe h s = (r', s')" by (auto split: prod.splits sum.splits)
  then show ?thesis using sameCore_unsubscribe by (auto simp: sameCore_def)
next
  case (CDispatch action)
  with R show ?thesis using keepingD[OF K] by simp
next
  case (CReplaceReducer rd)
  with R show ?thesis using keepingD[OF K] by simp
next
  case (CThrow msg)
  with R show ?thesis by auto
next
  case (CTry c')
  with R have "\<exists>r'. self (RunCmd c') s = Some (r', s')" by (auto split: option.splits)
  then show ?thesis using keepingD[OF K] by blast
qed

lemma replaceReducerBody_keeping:
  assumes K: "keeping self" and R: "replaceReducerBody self nr s = Some (r, s')"
  shows "isDispatching s' = isDispatching s"
proof (cases nr)
  case (Val v)
  with R show ?thesis by (simp add: replaceReducerBody_def)
next
  case (Fn rd)
  with R have "\<exists>r'. self (Dispatch (VObject [(''type'', ActionTypes_REPLACE)]))
                     (s\<lparr>currentReducer := rd\<rparr>) = Some (r', s')"
    by (auto simp: replaceReducerBody_def elim!: andThen_SomeE)
  then obtain r' where "self (Dispatch (VObject [(''type'', ActionTypes_REPLACE)]))
                     (s\<lparr>currentReducer := rd\<rparr>) = Some (r', s')" ..
  from keepingD[OF K this] show ?thesis by simp
qed

lemma step_keeping: "keeping self \<Longrightarrow> keeping (step self)"
  unfolding keeping_def[of "step self"]
proof (intro allI impI)
  fix c s r s'
  assume K: "keeping self" and R: "step self c s = Some (r, s')"
  show "isDispatching s' = isDispatching s"
    using R dispatchBody_keeping[OF K] notifyBody_keeping[OF K] callListenerBody_keeping[OF K]
      callReducerBody_keeping[OF K] runScriptBody_keeping[OF K] runCmdBody_keeping[OF K]
      replaceReducerBody_keeping[OF K]
    by (cases c) simp_all
qed

lemma exec_keeping: "keeping (exec n)"
proof (induction n)
  case 0
  show ?case by (simp add: keeping_def)
next
  case (Suc n)
  then show ?case by (simp add: step_keeping)
qed

lemma exec_flag: "exec n c s = Some (r, s') \<Longrightarrow> isDispatching s' = isDispatching s"
  using exec_keeping by (rule keepingD)

lemma notifySnapshot_flag:
  "notifySnapshot n ls s = Some (r, s') \<Longrightarrow> isDispatching s' = isDispatching s"
proof (induction ls arbitrary: n s)
  case Nil
  then show ?case by (cases n) simp_all
next
  case (Cons l ls)
  from Cons.prems obtain k where K: "n = Suc k" by (cases n) simp_all
  from Cons.prems K
  have "andThen (callListener k l s) (\<lambda>u s1. notifySnapshot k ls s1) = Some (r, s')" by simp
  then show ?case
  proof (cases rule: andThen_SomeE)
    case (throw e)
    then show ?thesis using exec_flag by (simp add: callListener_def)
  next
    case (ret v s1)
    from ret(1) have "isDispatching s1 = isDispatching s"
      using exec_flag by (simp add: callListener_def)
    with Cons.IH[OF ret(2)] show ?thesis by simp
  qed
qed

section \<open>What unsubscribe removes\<close>

lemma indexOf_bounds: "-1 \<le> indexOf xs f \<and> indexOf xs f < int (length xs)"
  by (induction xs) (auto simp: Let_def)

lemma indexOf_absent:
  "\<not> list_ex (\<lambda>y. sameFunction y f) xs \<Longrightarrow> indexOf xs f = -1"
  by (induction xs) (auto simp: Let_def)

lemma indexOf_present:
  "list_ex (\<lambda>y. sameFunction y f) xs \<Longrightarrow> 0 \<le> indexOf xs f"
  by (induction xs) (auto simp: Let_def)

lemma splice1_nonneg:
  "0 \<le> i \<Longrightarrow> i < int (length xs) \<Longrightarrow>
   splice1 i xs = take (nat i) xs @ drop (Suc (nat i)) xs"
  by (simp add: splice1_def Let_def min_def)

lemma splice1_indexOf_present:
  "list_ex (\<lambda>y. sameFunction y f) xs \<Longrightarrow>
   take (nat (indexOf xs f)) xs @ drop (Suc (nat (indexOf xs f))) xs = removeFirst xs f"
proof (induction xs)
  case Nil
  then show ?case by simp
next
  case (Cons y ys)
  show ?case
  proof (cases "sameFunction y f")
    case True
    then show ?thesis by simp
  next
    case False
    with Cons.prems have P: "list_ex (\<lambda>y. sameFunction y f) ys" by simp
    from indexOf_present[OF P] have N: "0 \<le> indexOf ys f" .
    then have "nat (indexOf ys f + 1) = Suc (nat (indexOf ys f))" by simp
    with False N Cons.IH[OF P] show ?thesis by (simp add: Let_def)
  qed
qed

lemma splice1_minus_one: "splice1 (-1) xs = butlast xs"
proof (cases xs rule: rev_cases)
  case Nil
  then show ?thesis by (simp add: splice1_def)
next
  case (snoc ys y)
  have "nat (max (int (length ys) + 1 + - 1) 0) = length ys" by simp
  then show ?thesis using snoc by (simp add: splice1_def Let_def max_def)
qed

lemma splice1_indexOf:
  "splice1 (indexOf xs f) xs =
     (if list_ex (\<lambda>y. sameFunction y f) xs then removeFirst xs f else butlast xs)"
proof (cases "list_ex (\<lambda>y. sameFunction y f) xs")
  case True
  from indexOf_present[OF True] indexOf_bounds[of xs f]
  have "splice1 (indexOf xs f) xs
      = take (nat (indexOf xs f)) xs @ drop (Suc (nat (indexOf xs f))) xs"
    by (simp add: splice1_nonneg)
  with True splice1_indexOf_present[OF True] show ?thesis by simp
next
  case False
  with indexOf_absent[OF False] show ?thesis by (simp add: splice1_minus_one)
qed

lemma ensure_registry:
  "arrays (ensureCanMutateNextListeners s) (nextListeners (ensureCanMutateNextListeners s))
     = arrays s (nextListeners s)"
  by (simp add: ensureCanMutateNextListeners_def)

lemma unsubscribe_registry:
  assumes "h < length (subscriptions s)" and "subscriptions s ! h = (f, True)"
    and "\<not> isDispatching s" and "unsubscribe h s = (r, s')"
  shows "r = Inr () \<and>
         arrays s' (nextListeners s') =
           (if list_ex (\<lambda>y. sameFunction y f) (arrays s (nextListeners s))
            then removeFirst (arrays s (nextListeners s)) f
            else butlast (arrays s (nextListeners s))) \<and>
         subscriptions s' = (subscriptions s)[h := (f, False)]"
proof -
  let ?s1 = "s\<lparr>subscriptions := (subscriptions s)[h := (f, False)]\<rparr>"
  let ?s2 = "ensureCanMutateNextListeners ?s1"
  have A: "arrays ?s2 (nextListeners ?s2) = arrays s (nextListeners s)"
    using ensure_registry[of ?s1] by simp
  have S: "subscriptions ?s2 = (subscriptions s)[h := (f, False)]"
    by (simp add: ensureCanMutateNextListeners_def)
  from assms have U: "r = Inr ()"
    "s' = ?s2\<lparr>arrays := (arrays ?s2)(nextListeners ?s2 :=
             splice1 (indexOf (arrays ?s2 (nextListeners ?s2)) f)
               (arrays ?s2 (nextListeners ?s2)))\<rparr>"
    by (simp_all add: unsubscribe_def Let_def)
  from U(2) have "arrays s' (nextListeners s') =
      splice1 (indexOf (arrays ?s2 (nextListeners ?s2)) f) (arrays ?s2 (nextListeners ?s2))"
    by simp
  with A have "arrays s' (nextListeners s') =
      splice1 (indexOf (arrays s (nextListeners s)) f) (arrays s (nextListeners s))"
    by simp
  moreover from U(2) S have "subscriptions s' = (subscriptions s)[h := (f, False)]" by simp
  ultimately show ?thesis using U(1) by (simp add: splice1_indexOf)
qed

lemma unsubscribe_inactive:
  "h < length (subscriptions s) \<Longrightarrow> subscriptions s ! h = (f, False) \<Longrightarrow>
   unsubscribe h s = (Inr (), s)"
  by (simp add: unsubscribe_def)

section \<open>What a pass leaves in the log\<close>

lemma notifySnapshot_quiet_throw:
  "notifySnapshot n ls s = Some (Inl e, s') \<Longrightarrow> list_all quietListener ls \<Longrightarrow>
   \<exists>k<length ls. notified s' = notified s @ map listenerId (take (Suc k) ls)"
proof (induction ls arbitrary: n s)
  case Nil
  then show ?case by (cases n) simp_all
next
  case (Cons l ls)
  from Cons.prems(1) obtain m where M: "n = Suc m" by (cases n) simp_all
  from Cons.prems(1) M
  have "andThen (callListener m l s) (\<lambda>u s1. notifySnapshot m ls s1) = Some (Inl e, s')" by simp
  then show ?case
  proof (cases rule: andThen_SomeE)
    case (throw e')
    from callListener_quiet[OF throw(1)] Cons.prems(2)
    have "notified s' = notified s @ map listenerId (take (Suc 0) (l # ls))" by simp
    then show ?thesis by blast
  next
    case (ret v s1)
    from callListener_quiet[OF ret(1)] Cons.prems(2)
    have L: "notified s1 = notified s @ [listenerId l]" by simp
    from Cons.IH[OF ret(2)] Cons.prems(2) obtain k where
      K: "k < length ls" "notified s' = notified s1 @ map listenerId (take (Suc k) ls)" by auto
    from K L have "notified s' = notified s @ map listenerId (take (Suc (Suc k)) (l # ls))"
      by simp
    with K(1) show ?thesis by (intro exI[of _ "Suc k"]) simp
  qed
qed

lemma pairStore_reachable: "subscribe (Fn lateListener) exampleStore = (Inr 1, pairStore)"
  by (simp add: subscribe_def ensureCanMutateNextListeners_def exampleStore_def pairStore_def
      Let_def)

text \<open>
  C1 as stated fails: three listeners are registered before the dispatch, the second one
  throws, and the pass has called the first two only.
\<close>

theorem listener_snapshot_isolation_counterexample:
  "wellFormed stoppingStore \<and> \<not> isDispatching stoppingStore \<and>
   isPlainObject INC \<and> getProp INC ''type'' \<noteq> VUndefined \<and>
   map listenerId (arrays stoppingStore (nextListeners stoppingStore)) = [4, 5, 6] \<and>
   returned (callReducer 8 (currentReducer stoppingStore) (currentState stoppingStore) INC
              (stoppingStore\<lparr>isDispatching := True\<rparr>)) = Some (Inr (VNum 1)) \<and>
   returned (dispatch 9 INC stoppingStore) = Some (Inl (UserError ''stop'')) \<and>
   logAfter (dispatch 9 INC stoppingStore) = Some [4, 5]"
  by code_simp

section \<open>A live unsubscribe function finds its listener\<close>

lemma sameFunction_id: "sameFunction y f = (listenerId y = listenerId f)"
  by (cases y; cases f) simp

lemma balanced_fields [simp]:
  "balanced (s\<lparr>isDispatching := b\<rparr>) = balanced s"
  "balanced (s\<lparr>currentState := v\<rparr>) = balanced s"
  "balanced (s\<lparr>currentReducer := rd\<rparr>) = balanced s"
  "balanced (s\<lparr>notified := ns\<rparr>) = balanced s"
  "balanced (s\<lparr>currentListeners := a\<rparr>) = balanced s"
  by (simp_all add: balanced_def)

lemma balanced_ensure: "balanced (ensureCanMutateNextListeners s) = balanced s"
  by (simp add: balanced_def ensureCanMutateNextListeners_def)

lemma balanced_subscribe: "balanced s \<Longrightarrow> subscribe l s = (r, s') \<Longrightarrow> balanced s'"
  by (auto simp: subscribe_def Let_def balanced_def ensureCanMutateNextListeners_def
      split: jsarg.splits if_splits)

lemma filter_update_live:
  "h < length xs \<Longrightarrow> xs ! h = (f, True) \<Longrightarrow>
   length (filter (\<lambda>p. snd p \<and> listenerId (fst p) = i) xs) =
     length (filter (\<lambda>p. snd p \<and> listenerId (fst p) = i) (xs[h := (f, False)])) +
       (if listenerId f = i then 1 else 0)"
proof (induction xs arbitrary: h)
  case Nil
  then show ?case by simp
next
  case (Cons x xs)
  then show ?case by (cases h) auto
qed

lemma balanced_present:
  assumes "balanced s" and "h < length (subscriptions s)" and "subscriptions s ! h = (f, True)"
  shows "list_ex (\<lambda>y. sameFunction y f) (arrays s (nextListeners s))"
proof -
  from filter_update_live[OF assms(2,3), of "listenerId f"]
  have "0 < length (filter (\<lambda>p. snd p \<and> listenerId (fst p) = listenerId f) (subscriptions s))"
    by simp
  with assms(1)
  have "0 < length (filter (\<lambda>y. listenerId y = listenerId f) (arrays s (nextListeners s)))"
    by (simp add: balanced_def)
  then have "filter (\<lambda>y. listenerId y = listenerId f) (arrays s (nextListeners s)) \<noteq> []"
    by simp
  then show ?thesis
    by (auto simp: filter_empty_conv list_ex_iff sameFunction_id)
qed

lemma filter_removeFirst:
  "list_ex (\<lambda>y. sameFunction y f) xs \<Longrightarrow>
   length (filter (\<lambda>y. listenerId y = i) xs) =
     length (filter (\<lambda>y. listenerId y = i) (removeFirst xs f)) +
       (if listenerId f = i then 1 else 0)"
  by (induction xs) (auto simp: sameFunction_id)

lemma balanced_unsubscribe:
  assumes B: "balanced s" and U: "unsubscribe h s = (r, s')"
  shows "balanced s'"
proof (cases "h < length (subscriptions s) \<and> snd (subscriptions s ! h) \<and> \<not> isDispatching s")
  case False
  with U have "s' = s"
    by (auto simp: unsubscribe_def Let_def split: prod.splits if_splits)
  with B show ?thesis by simp
next
  case True
  obtain f where F: "subscriptions s ! h = (f, True)"
    using True by (cases "subscriptions s ! h") auto
  from True have H: "h < length (subscriptions s)" and D: "\<not> isDispatching s" by blast+
  from balanced_present[OF B H F]
  have P: "list_ex (\<lambda>y. sameFunction y f) (arrays s (nextListeners s))" .
  from unsubscribe_registry[OF H F D U] P
  have A: "arrays s' (nextListeners s') = removeFirst (arrays s (nextListeners s)) f"
    and S: "subscriptions s' = (subscriptions s)[h := (f, False)]" by simp_all
  show ?thesis
    unfolding balanced_def A S
  proof
    fix i
    from B have "length (filter (\<lambda>y. listenerId y = i) (arrays s (nextListeners s))) =
          length (filter (\<lambda>p. snd p \<and> listenerId (fst p) = i) (subscriptions s))"
      by (simp add: balanced_def)
    with filter_removeFirst[OF P, of i] filter_update_live[OF H F, of i]
    show "length (filter (\<lambda>y. listenerId y = i) (removeFirst (arrays s (nextListeners s)) f)) =
          length (filter (\<lambda>p. snd p \<and> listenerId (fst p) = i) ((subscriptions s)[h := (f, False)]))"
      by simp
  qed
qed

lemma balancingD: "balancing self \<Longrightarrow> self c s = Some (r, s') \<Longrightarrow> balanced s \<Longrightarrow> balanced s'"
  unfolding balancing_def by blast

lemma seq_balancing:
  assumes K: "balancing self" and B: "balanced s"
    and R: "andThen (self c1 s) (\<lambda>u s1. self c2 s1) = Some (r, s')"
  shows "balanced s'"
  using R
proof (cases rule: andThen_SomeE)
  case (throw e)
  from balancingD[OF K throw(1) B] show ?thesis .
next
  case (ret v s1)
  from balancingD[OF K ret(2) balancingD[OF K ret(1) B]] show ?thesis .
qed

lemma dispatchBody_balancing:
  assumes K: "balancing self" and B: "balanced s"
    and R: "dispatchBody self action s = Some (r, s')"
  shows "balanced s'"
proof (cases "\<not> isPlainObject action \<or> getProp action ''type'' = VUndefined \<or> isDispatching s")
  case True
  with R B show ?thesis by (auto simp: dispatchBody_def split: if_splits)
next
  case False
  let ?c = "CallReducer (currentReducer s) (currentState s) action"
  let ?s = "s\<lparr>isDispatching := True\<rparr>"
  from R False obtain y where Y: "self ?c ?s = Some y"
    by (cases "self ?c ?s") (auto simp: dispatchBody_def)
  obtain x s1 where P: "y = (x, s1)" by (cases y)
  from balancingD[OF K Y[unfolded P]] B have B1: "balanced s1" by simp
  show ?thesis
  proof (cases x)
    case (Inl e)
    with R False Y P B1 show ?thesis by (auto simp: dispatchBody_def)
  next
    case (Inr v)
    let ?s4 = "s1\<lparr>currentState := v, isDispatching := False, currentListeners := nextListeners s1\<rparr>"
    from R False Y P Inr
    have "andThen (self (Notify (nextListeners s1) 0) ?s4) (\<lambda>u s5. Some (Inr action, s5))
            = Some (r, s')"
      by (simp add: dispatchBody_def Let_def)
    then have "\<exists>r'. self (Notify (nextListeners s1) 0) ?s4 = Some (r', s')"
      by (auto elim!: andThen_SomeE)
    then obtain r' where "self (Notify (nextListeners s1) 0) ?s4 = Some (r', s')" ..
    from balancingD[OF K this] B1 show ?thesis by simp
  qed
qed

lemma notifyBody_balancing:
  assumes K: "balancing self" and B: "balanced s" and R: "notifyBody self a i s = Some (r, s')"
  shows "balanced s'"
proof (cases "i < length (arrays s a)")
  case False
  with R B show ?thesis by (simp add: notifyBody_def)
next
  case True
  with R have "andThen (self (CallListener (arrays s a ! i)) s)
             (\<lambda>u s1. self (Notify a (Suc i)) s1) = Some (r, s')"
    by (simp add: notifyBody_def)
  from seq_balancing[OF K B this] show ?thesis .
qed

lemma callListenerBody_balancing:
  assumes K: "balancing self" and B: "balanced s"
    and R: "callListenerBody self l s = Some (r, s')"
  shows "balanced s'"
proof (cases l)
  case (Listener ident body)
  with R have "self (RunScript body) (s\<lparr>notified := notified s @ [ident]\<rparr>) = Some (r, s')"
    by simp
  from balancingD[OF K this] B show ?thesis by simp
qed

lemma callReducerBody_balancing:
  assumes K: "balancing self" and B: "balanced s"
    and R: "callReducerBody self rd st action s = Some (r, s')"
  shows "balanced s'"
proof (cases rd)
  case (Reducer body f)
  with R have "\<exists>r'. self (RunScript body) s = Some (r', s')"
    by (auto elim!: andThen_SomeE split: sum.splits)
  then show ?thesis using balancingD[OF K _ B] by blast
qed

lemma runScriptBody_balancing:
  assumes K: "balancing self" and B: "balanced s"
    and R: "runScriptBody self cs s = Some (r, s')"
  shows "balanced s'"
proof (cases cs)
  case Nil
  with R B show ?thesis by simp
next
  case (Cons c cs')
  with R have "andThen (self (RunCmd c) s) (\<lambda>u s1. self (RunScript cs') s1) = Some (r, s')"
    by simp
  from seq_balancing[OF K B this] show ?thesis .
qed

lemma runCmdBody_balancing:
  assumes K: "balancing self" and B: "balanced s" and R: "runCmdBody self c s = Some (r, s')"
  shows "balanced s'"
proof (cases c)
  case CGetState
  with R B show ?thesis by (auto simp: getState_def split: if_splits)
next
  case (CSubscribe l)
  with R have "\<exists>r'. subscribe l s = (r', s')" by (auto split: prod.splits sum.splits)
  then show ?thesis using balanced_subscribe[OF B] by blast
next
  case (CUnsubscribe h)
  with R have "\<exists>r'. unsubscribe h s = (r', s')" by (auto split: prod.splits sum.splits)
  then show ?thesis using balanced_unsubscribe[OF B] by blast
next
  case (CDispatch action)
  with R show ?thesis using balancingD[OF K _ B] by simp
next
  case (CReplaceReducer rd)
  with R show ?thesis using balancingD[OF K _ B] by simp
next
  case (CThrow msg)
  with R B show ?thesis by auto
next
  case (CTry c')
  with R have "\<exists>r'. self (RunCmd c') s = Some (r', s')" by (auto split: option.splits)
  then show ?thesis using balancingD[OF K _ B] by blast
qed

lemma replaceReducerBody_balancing:
  assumes K: "balancing self" and B: "balanced s"
    and R: "replaceReducerBody self nr s = Some (r, s')"
  shows "balanced s'"
proof (cases nr)
  case (Val v)
  with R B show ?thesis by (simp add: replaceReducerBody_def)
next
  case (Fn rd)
  with R have "\<exists>r'. self (Dispatch (VObject [(''type'', ActionTypes_REPLACE)]))
                     (s\<lparr>currentReducer := rd\<rparr>) = Some (r', s')"
    by (auto simp: replaceReducerBody_def elim!: andThen_SomeE)
  then obtain r' where "self (Dispatch (VObject [(''type'', ActionTypes_REPLACE)]))
                     (s\<lparr>currentReducer := rd\<rparr>) = Some (r', s')" ..
  from balancingD[OF K this] B show ?thesis by simp
qed

lemma step_balancing: "balancing self \<Longrightarrow> balancing (step self)"
  unfolding balancing_def[of "step self"]
proof (intro allI impI)
  fix c s r s'
  assume K: "balancing self" and R: "step self c s = Some (r, s')" and B: "balanced s"
  show "balanced s'"
    using R dispatchBody_balancing[OF K B] notifyBody_balancing[OF K B]
      callListenerBody_balancing[OF K B] callReducerBody_balancing[OF K B]
      runScriptBody_balancing[OF K B] runCmdBody_balancing[OF K B]
      replaceReducerBody_balancing[OF K B]
    by (cases c) simp_all
qed

lemma exec_balancing: "balancing (exec n)"
proof (induction n)
  case 0
  show ?case by (simp add: balancing_def)
next
  case (Suc n)
  then show ?case by (simp add: step_balancing)
qed

lemma dispatch_balanced:
  "dispatch n action s = Some (x, s') \<Longrightarrow> balanced s \<Longrightarrow> balanced s'"
  unfolding dispatch_def using exec_balancing by (rule balancingD)

lemma replaceReducer_balanced:
  "replaceReducer n r s = Some (x, s') \<Longrightarrow> balanced s \<Longrightarrow> balanced s'"
  unfolding replaceReducer_def using exec_balancing by (rule balancingD)

lemma initialStore_balanced: "balanced (initialStore r p)"
  by (simp add: balanced_def initialStore_def)

lemma createStoreBase_balanced:
  assumes "createStoreBase n reducer p = Some (Inr s)"
  shows "balanced s"
proof (cases reducer)
  case (Val v)
  with assms show ?thesis by (simp add: createStoreBase_def)
next
  case (Fn r)
  with assms have "\<exists>x. dispatch n (VObject [(''type'', ActionTypes_INIT)])
      (initialStore r p) = Some (x, s)"
    by (auto simp: createStoreBase_def split: option.splits sum.splits)
  then obtain x where "dispatch n (VObject [(''type'', ActionTypes_INIT)])
      (initialStore r p) = Some (x, s)" ..
  from dispatch_balanced[OF this initialStore_balanced] show ?thesis .
qed

text \<open>
  C1, amended. Listener snapshot isolation. In a well-formed store, the notification pass of
  a dispatch calls the listeners of the list that was registered when \<^verbatim>\<open>dispatch\<close> was
  called, in order, up to the first one that throws, whatever the listeners do: the loop
  over the array gives what a pass over the fixed list gives, at every index, and with
  quiet listeners the log grows by the whole list when the pass returns and by a prefix
  that ends with the throwing listener when it throws. A \<^verbatim>\<open>subscribe\<close> or
  \<^verbatim>\<open>unsubscribe\<close> leaves every array as old as the current one untouched: the new listener
  is appended to the next list, and the call of a live unsubscribe function removes the first
  entry of the next list that is its listener, once (in a balanced store there is such an
  entry; \<^verbatim>\<open>splice(-1, 1)\<close> would remove the last entry otherwise); the next list is what
  the next dispatch takes as its snapshot.
\<close>

theorem listener_snapshot_isolation:
  assumes "wellFormed s"
  shows "(\<forall>action v s1.
            isPlainObject action \<and> getProp action ''type'' \<noteq> VUndefined \<and> \<not> isDispatching s \<and>
            callReducer n (currentReducer s) (currentState s) action (s\<lparr>isDispatching := True\<rparr>)
              = Some (Inr v, s1) \<longrightarrow>
            (let snapshot = arrays s (nextListeners s);
                 s4 = s\<lparr>currentReducer := currentReducer s1, currentState := v,
                        currentListeners := nextListeners s\<rparr>
             in dispatch (Suc n) action s =
                  andThen (notifySnapshot n snapshot s4) (\<lambda>u s5. Some (Inr action, s5)) \<and>
                (\<forall>r s'. notifySnapshot n snapshot s4 = Some (r, s') \<and>
                         list_all quietListener snapshot \<longrightarrow>
                   (case r of
                      Inr u \<Rightarrow> notified s' = notified s @ map listenerId snapshot
                    | Inl e \<Rightarrow> (\<exists>k<length snapshot.
                        notified s' = notified s @ map listenerId (take (Suc k) snapshot))))))
       \<and> (\<forall>a i. a \<le> currentListeners s \<longrightarrow>
              notify n a i s = notifySnapshot n (drop i (arrays s a)) s)
       \<and> (\<forall>l2 h s'. subscribe (Fn l2) s = (Inr h, s') \<longrightarrow>
              (\<forall>a. a \<le> currentListeners s \<longrightarrow> arrays s' a = arrays s a) \<and>
              arrays s' (nextListeners s') = arrays s (nextListeners s) @ [l2])
       \<and> (\<forall>h r s'. unsubscribe h s = (r, s') \<longrightarrow>
              (\<forall>a. a \<le> currentListeners s \<longrightarrow> arrays s' a = arrays s a))
       \<and> (\<forall>h f r s'. h < length (subscriptions s) \<and> subscriptions s ! h = (f, True) \<and>
              \<not> isDispatching s \<and> unsubscribe h s = (r, s') \<longrightarrow>
              r = Inr () \<and>
              arrays s' (nextListeners s') =
                (if list_ex (\<lambda>y. sameFunction y f) (arrays s (nextListeners s))
                 then removeFirst (arrays s (nextListeners s)) f
                 else butlast (arrays s (nextListeners s))) \<and>
              subscriptions s' = (subscriptions s)[h := (f, False)] \<and>
              (balanced s \<longrightarrow>
                 list_ex (\<lambda>y. sameFunction y f) (arrays s (nextListeners s)) \<and> balanced s'))
       \<and> (\<forall>h f. h < length (subscriptions s) \<and> subscriptions s ! h = (f, False) \<longrightarrow>
              unsubscribe h s = (Inr (), s))"
proof (intro conjI allI impI)
  fix action v s1
  assume A: "isPlainObject action \<and> getProp action ''type'' \<noteq> VUndefined \<and> \<not> isDispatching s \<and>
            callReducer n (currentReducer s) (currentState s) action (s\<lparr>isDispatching := True\<rparr>)
              = Some (Inr v, s1)"
  let ?snapshot = "arrays s (nextListeners s)"
  let ?s4 = "s\<lparr>currentReducer := currentReducer s1, currentState := v,
                 currentListeners := nextListeners s\<rparr>"
  have W4: "wellFormed ?s4" using assms by (simp add: wellFormed_def)
  have "notify n (nextListeners s) 0 ?s4 = notifySnapshot n ?snapshot ?s4"
    using notify_snapshot[OF W4, of "nextListeners s" n 0] by simp
  with A have D: "dispatch (Suc n) action s =
      andThen (notifySnapshot n ?snapshot ?s4) (\<lambda>u s5. Some (Inr action, s5))"
    using dispatch_reduced[of action s n v s1] by simp
  have L: "\<forall>r s'. notifySnapshot n ?snapshot ?s4 = Some (r, s') \<and>
                         list_all quietListener ?snapshot \<longrightarrow>
                   (case r of
                      Inr u \<Rightarrow> notified s' = notified s @ map listenerId ?snapshot
                    | Inl e \<Rightarrow> (\<exists>k<length ?snapshot.
                        notified s' = notified s @ map listenerId (take (Suc k) ?snapshot)))"
  proof (intro allI impI)
    fix r s'
    assume "notifySnapshot n ?snapshot ?s4 = Some (r, s') \<and> list_all quietListener ?snapshot"
    then have N: "notifySnapshot n ?snapshot ?s4 = Some (r, s')"
      and Q: "list_all quietListener ?snapshot" by blast+
    show "case r of
            Inr u \<Rightarrow> notified s' = notified s @ map listenerId ?snapshot
          | Inl e \<Rightarrow> (\<exists>k<length ?snapshot.
              notified s' = notified s @ map listenerId (take (Suc k) ?snapshot))"
    proof (cases r)
      case (Inl e)
      with notifySnapshot_quiet_throw[of n ?snapshot ?s4 e s'] N Q show ?thesis by simp
    next
      case (Inr u)
      with notifySnapshot_quiet[of n ?snapshot ?s4 u s'] N Q show ?thesis by simp
    qed
  qed
  show "let snapshot = arrays s (nextListeners s);
                 s4 = s\<lparr>currentReducer := currentReducer s1, currentState := v,
                        currentListeners := nextListeners s\<rparr>
             in dispatch (Suc n) action s =
                  andThen (notifySnapshot n snapshot s4) (\<lambda>u s5. Some (Inr action, s5)) \<and>
                (\<forall>r s'. notifySnapshot n snapshot s4 = Some (r, s') \<and>
                         list_all quietListener snapshot \<longrightarrow>
                   (case r of
                      Inr u \<Rightarrow> notified s' = notified s @ map listenerId snapshot
                    | Inl e \<Rightarrow> (\<exists>k<length snapshot.
                        notified s' = notified s @ map listenerId (take (Suc k) snapshot))))"
    unfolding Let_def using D L by (rule conjI)
next
  fix a i
  assume "a \<le> currentListeners s"
  with assms show "notify n a i s = notifySnapshot n (drop i (arrays s a)) s"
    by (rule notify_snapshot)
next
  fix l2 h s' a
  assume "subscribe (Fn l2) s = (Inr h, s')" and "a \<le> currentListeners s"
  with ext_subscribe[OF assms] show "arrays s' a = arrays s a"
    by (auto simp: ext_def)
next
  fix l2 h s'
  assume "subscribe (Fn l2) s = (Inr h, s')"
  with assms show "arrays s' (nextListeners s') = arrays s (nextListeners s) @ [l2]"
    by (rule subscribe_registry)
next
  fix h r s' a
  assume "unsubscribe h s = (r, s')" and "a \<le> currentListeners s"
  with ext_unsubscribe[OF assms] show "arrays s' a = arrays s a"
    by (auto simp: ext_def)
next
  fix h f r s'
  assume A: "h < length (subscriptions s) \<and> subscriptions s ! h = (f, True) \<and>
              \<not> isDispatching s \<and> unsubscribe h s = (r, s')"
  then have U: "r = Inr () \<and>
         arrays s' (nextListeners s') =
           (if list_ex (\<lambda>y. sameFunction y f) (arrays s (nextListeners s))
            then removeFirst (arrays s (nextListeners s)) f
            else butlast (arrays s (nextListeners s))) \<and>
         subscriptions s' = (subscriptions s)[h := (f, False)]"
    using unsubscribe_registry[of h s f r s'] by blast
  from U show "r = Inr ()" by blast
  from U show "arrays s' (nextListeners s') =
           (if list_ex (\<lambda>y. sameFunction y f) (arrays s (nextListeners s))
            then removeFirst (arrays s (nextListeners s)) f
            else butlast (arrays s (nextListeners s)))" by blast
  from U show "subscriptions s' = (subscriptions s)[h := (f, False)]" by blast
  assume B: "balanced s"
  from A balanced_present[OF B, of h f]
  show "list_ex (\<lambda>y. sameFunction y f) (arrays s (nextListeners s))" by blast
  from A balanced_unsubscribe[OF B, of h r s'] show "balanced s'" by blast
next
  fix h f
  assume "h < length (subscriptions s) \<and> subscriptions s ! h = (f, False)"
  then show "unsubscribe h s = (Inr (), s)"
    using unsubscribe_inactive[of h s f] by blast
qed

theorem listener_snapshot_isolation_witness:
  "wellFormed exampleStore \<and>
   dispatch 9 INC exampleStore =
     andThen (notifySnapshot 8 [subscribingListener]
                (exampleStore\<lparr>currentReducer := counter, currentState := VNum 1,
                               currentListeners := 1\<rparr>))
       (\<lambda>u s5. Some (Inr INC, s5)) \<and>
   logAfter (dispatch 9 INC exampleStore) = Some [1] \<and>
   notify 8 0 0 exampleStore = notifySnapshot 8 [] exampleStore \<and>
   subscribe (Fn lateListener) exampleStore = (Inr 1, pairStore) \<and>
   arrays pairStore 0 = arrays exampleStore 0 \<and>
   arrays pairStore (nextListeners pairStore) = [subscribingListener, lateListener] \<and>
   (case dispatch 9 INC exampleStore of
      None \<Rightarrow> None
    | Some (r, s) \<Rightarrow> logAfter (dispatch 9 INC s)) = Some [1, 1, 2] \<and>
   wellFormed pairStore \<and> balanced pairStore \<and>
   fst (unsubscribe 0 pairStore) = Inr () \<and>
   arrays (snd (unsubscribe 0 pairStore)) 0 = arrays pairStore 0 \<and>
   arrays (snd (unsubscribe 0 pairStore)) (nextListeners (snd (unsubscribe 0 pairStore)))
     = [lateListener] \<and>
   unsubscribe 0 (snd (unsubscribe 0 pairStore)) = (Inr (), snd (unsubscribe 0 pairStore))"
proof -
  have W: "wellFormed exampleStore"
    by (simp add: wellFormed_def exampleStore_def)
  have R: "callReducer 8 (currentReducer exampleStore) (currentState exampleStore) INC
             (exampleStore\<lparr>isDispatching := True\<rparr>)
           = Some (Inr (VNum 1), exampleStore\<lparr>isDispatching := True\<rparr>)"
    by (simp add: exampleStore_def counter_def INC_def eval_nat_numeral callReducer_pure)
  have G: "isPlainObject INC" "getProp INC ''type'' \<noteq> VUndefined" "\<not> isDispatching exampleStore"
    by (simp_all add: INC_def exampleStore_def)
  have F: "nextListeners exampleStore = Suc 0"
    "arrays exampleStore (Suc 0) = [subscribingListener]"
    "currentReducer exampleStore = counter" "currentListeners exampleStore = 0"
    "arrays exampleStore 0 = []" "notified exampleStore = []"
    by (simp_all add: exampleStore_def)
  have Q: "list_all quietListener [subscribingListener]"
    by (simp add: quietListener_def subscribingListener_def)
  note T = listener_snapshot_isolation[OF W, of 8]
  let ?s4 = "exampleStore\<lparr>currentReducer := counter, currentState := VNum 1,
                               currentListeners := 1\<rparr>"
  have E: "arrays exampleStore (nextListeners exampleStore) = [subscribingListener]"
    "exampleStore\<lparr>currentReducer := currentReducer (exampleStore\<lparr>isDispatching := True\<rparr>),
        currentState := VNum 1, currentListeners := nextListeners exampleStore\<rparr> = ?s4"
    by (simp_all add: F)
  note T1 = T[THEN conjunct1, rule_format, OF conjI[OF G(1) conjI[OF G(2) conjI[OF G(3) R]]],
      unfolded Let_def E]
  from T1 have D: "dispatch 9 INC exampleStore =
      andThen (notifySnapshot 8 [subscribingListener] ?s4) (\<lambda>u s5. Some (Inr INC, s5))"
    by simp
  have "case notifySnapshot 8 [subscribingListener] ?s4 of
          Some (Inr u, s') \<Rightarrow> True | _ \<Rightarrow> False"
    by code_simp
  then obtain u s' where N: "notifySnapshot 8 [subscribingListener] ?s4 = Some (Inr u, s')"
    by (auto split: option.splits sum.splits prod.splits)
  from T1[THEN conjunct2, rule_format, OF conjI[OF N Q]] have "notified s' = [1]"
    by (simp add: F subscribingListener_def)
  with D N have L: "logAfter (dispatch 9 INC exampleStore) = Some [1]"
    by (simp add: logAfter_def andThen_def)
  have N0: "notify 8 0 0 exampleStore = notifySnapshot 8 [] exampleStore"
    using T[THEN conjunct2, THEN conjunct1, rule_format, of 0 0] by (simp add: F)
  have S: "subscribe (Fn lateListener) exampleStore = (Inr 1, pairStore)"
    by (rule pairStore_reachable)
  note TS = T[THEN conjunct2, THEN conjunct2, THEN conjunct1, rule_format, OF S]
  from TS have S1: "arrays pairStore 0 = arrays exampleStore 0"
    "arrays pairStore (nextListeners pairStore) = [subscribingListener, lateListener]"
    by (simp_all add: F)
  have L2: "(case dispatch 9 INC exampleStore of
      None \<Rightarrow> None
    | Some (r, s) \<Rightarrow> logAfter (dispatch 9 INC s)) = Some [1, 1, 2]"
    by code_simp
  have WP: "wellFormed pairStore" by (simp add: wellFormed_def pairStore_def)
  have BP: "balanced pairStore"
    by (auto simp: balanced_def pairStore_def subscribingListener_def lateListener_def)
  have P: "0 < length (subscriptions pairStore)"
    "subscriptions pairStore ! 0 = (subscribingListener, True)" "\<not> isDispatching pairStore"
    "currentListeners pairStore = 0"
    "arrays pairStore (nextListeners pairStore) = [subscribingListener, lateListener]"
    by (simp_all add: pairStore_def)
  note TP = listener_snapshot_isolation[OF WP, of 8]
  obtain x s'' where U: "unsubscribe 0 pairStore = (x, s'')"
    by (cases "unsubscribe 0 pairStore")
  from TP[THEN conjunct2, THEN conjunct2, THEN conjunct2, THEN conjunct1, rule_format, OF U,
      of 0]
  have U0: "arrays s'' 0 = arrays pairStore 0" by (simp add: P)
  note TU = TP[THEN conjunct2, THEN conjunct2, THEN conjunct2, THEN conjunct2, THEN conjunct1,
      rule_format, OF conjI[OF P(1) conjI[OF P(2) conjI[OF P(3) U]]]]
  from TU have U1: "x = Inr ()"
    "arrays s'' (nextListeners s'') =
       (if list_ex (\<lambda>y. sameFunction y subscribingListener) [subscribingListener, lateListener]
        then removeFirst [subscribingListener, lateListener] subscribingListener
        else butlast [subscribingListener, lateListener])"
    "subscriptions s'' = (subscriptions pairStore)[0 := (subscribingListener, False)]"
    by (simp_all add: P(5))
  from TU BP have BU: "balanced s''" by blast
  from U1(2) have U2: "arrays s'' (nextListeners s'') = [lateListener]"
    by (simp add: subscribingListener_def lateListener_def)
  have W2: "wellFormed s''" using U WP by (rule unsubscribe_wellFormed)
  from U1(3) have I: "0 < length (subscriptions s'')"
    "subscriptions s'' ! 0 = (subscribingListener, False)"
    by (simp_all add: pairStore_def)
  from listener_snapshot_isolation[OF W2, of 8, THEN conjunct2, THEN conjunct2, THEN conjunct2,
      THEN conjunct2, THEN conjunct2, rule_format, OF conjI[OF I]]
  have U3: "unsubscribe 0 s'' = (Inr (), s'')" .
  from U U3 have U4: "unsubscribe 0 (snd (unsubscribe 0 pairStore))
      = (Inr (), snd (unsubscribe 0 pairStore))" by simp
  from U U0 U1(1) U2 have U5: "fst (unsubscribe 0 pairStore) = Inr ()"
    "arrays (snd (unsubscribe 0 pairStore)) 0 = arrays pairStore 0"
    "arrays (snd (unsubscribe 0 pairStore)) (nextListeners (snd (unsubscribe 0 pairStore)))
       = [lateListener]" by simp_all
  show ?thesis
    using W D L N0 S S1 L2 WP BP U4 U5 by blast
qed

section \<open>Dispatching from a reducer, dispatching from a listener\<close>

lemma runScript_append:
  "exec (length pre + Suc m) (RunScript (pre @ rest)) s =
     (case exec (length pre + Suc m) (RunScript pre) s of
        None \<Rightarrow> None
      | Some (Inl e, s1) \<Rightarrow> Some (Inl e, s1)
      | Some (Inr u, s1) \<Rightarrow> exec (Suc m) (RunScript rest) s1)"
proof (induction pre arbitrary: s)
  case Nil
  show ?case by simp
next
  case (Cons c cs)
  let ?N = "length cs + Suc m"
  have "exec (Suc ?N) (RunScript (c # (cs @ rest))) s =
      andThen (exec ?N (RunCmd c) s) (\<lambda>u s1. exec ?N (RunScript (cs @ rest)) s1)"
    by simp
  also have "\<dots> = andThen (exec ?N (RunCmd c) s)
      (\<lambda>u s1. case exec ?N (RunScript cs) s1 of
        None \<Rightarrow> None
      | Some (Inl e, s2) \<Rightarrow> Some (Inl e, s2)
      | Some (Inr u, s2) \<Rightarrow> exec (Suc m) (RunScript rest) s2)"
    by (simp only: Cons.IH)
  also have "\<dots> = (case exec (Suc ?N) (RunScript (c # cs)) s of
        None \<Rightarrow> None
      | Some (Inl e, s1) \<Rightarrow> Some (Inl e, s1)
      | Some (Inr u, s1) \<Rightarrow> exec (Suc m) (RunScript rest) s1)"
    by (auto simp: andThen_def split: option.splits sum.splits prod.splits)
  finally show ?case by simp
qed

lemma notifySnapshot_append:
  "notifySnapshot (length pre + Suc m) (pre @ rest) s =
     (case notifySnapshot (length pre + Suc m) pre s of
        None \<Rightarrow> None
      | Some (Inl e, s1) \<Rightarrow> Some (Inl e, s1)
      | Some (Inr u, s1) \<Rightarrow> notifySnapshot (Suc m) rest s1)"
proof (induction pre arbitrary: s)
  case Nil
  show ?case by simp
next
  case (Cons l ls)
  let ?N = "length ls + Suc m"
  have "notifySnapshot (Suc ?N) (l # (ls @ rest)) s =
      andThen (callListener ?N l s) (\<lambda>u s1. notifySnapshot ?N (ls @ rest) s1)"
    by simp
  also have "\<dots> = andThen (callListener ?N l s)
      (\<lambda>u s1. case notifySnapshot ?N ls s1 of
        None \<Rightarrow> None
      | Some (Inl e, s2) \<Rightarrow> Some (Inl e, s2)
      | Some (Inr u, s2) \<Rightarrow> notifySnapshot (Suc m) rest s2)"
    by (simp only: Cons.IH)
  also have "\<dots> = (case notifySnapshot (Suc ?N) (l # ls) s of
        None \<Rightarrow> None
      | Some (Inl e, s1) \<Rightarrow> Some (Inl e, s1)
      | Some (Inr u, s1) \<Rightarrow> notifySnapshot (Suc m) rest s1)"
    by (auto simp: andThen_def split: option.splits sum.splits prod.splits)
  finally show ?case by simp
qed

lemma nested_dispatch_rejected:
  "isDispatching s \<Longrightarrow>
   runCmd (Suc (Suc n)) (CDispatch b) s =
     Some (Inl (if \<not> isPlainObject b then ActionsMustBePlainObjects
                else if getProp b ''type'' = VUndefined then UndefinedActionType
                else ReducersMayNotDispatch), s)"
  by (simp add: runCmd_def dispatchBody_def)

lemma nested_dispatch_caught:
  "isDispatching s \<Longrightarrow>
   runCmd (Suc (Suc (Suc n))) (CTry (CDispatch b)) s = Some (Inr VUndefined, s)"
  by (simp add: runCmd_def dispatchBody_def)

lemma reducer_time:
  assumes "isDispatching s" and "reducerCall c" and "exec n c s = Some (r, s')"
  shows "s' = s\<lparr>currentReducer := currentReducer s'\<rparr>"
  using frozenD[OF exec_frozen assms(3,2,1)] by (auto simp: onlyReducer_def)

lemma nested_dispatch_uncaught:
  assumes "isPlainObject action" and "getProp action ''type'' \<noteq> VUndefined"
    and "\<not> isDispatching s"
    and "currentReducer s = Reducer (pre @ CDispatch b # post) f"
    and "runScript k pre (s\<lparr>isDispatching := True\<rparr>) = Some (Inr u, s1)"
  shows "dispatch (Suc (Suc (length pre + Suc (Suc k)))) action s =
     Some (Inl (if \<not> isPlainObject b then ActionsMustBePlainObjects
                else if getProp b ''type'' = VUndefined then UndefinedActionType
                else ReducersMayNotDispatch), s\<lparr>currentReducer := currentReducer s1\<rparr>)"
proof -
  let ?e = "if \<not> isPlainObject b then ActionsMustBePlainObjects
            else if getProp b ''type'' = VUndefined then UndefinedActionType
            else ReducersMayNotDispatch"
  let ?sT = "s\<lparr>isDispatching := True\<rparr>"
  let ?N = "length pre + Suc (Suc k)"
  from assms(5) have X: "exec k (RunScript pre) ?sT = Some (Inr u, s1)"
    by (simp add: runScript_def)
  then obtain k' where K: "k = Suc k'" by (cases k) simp_all
  have P: "exec ?N (RunScript pre) ?sT = Some (Inr u, s1)"
    using exec_more_fuel[OF X, of ?N] by simp
  have S1: "s1 = ?sT\<lparr>currentReducer := currentReducer s1\<rparr>"
    using reducer_time[of ?sT "RunScript pre" k "Inr u" s1] X by simp
  have "isDispatching s1" by (subst S1) simp
  then have "exec (Suc (Suc k)) (RunScript (CDispatch b # post)) s1 = Some (Inl ?e, s1)"
    unfolding K by (simp add: andThen_def dispatchBody_def)
  with runScript_append[of pre "Suc k" "CDispatch b # post" ?sT] P
  have "exec ?N (RunScript (pre @ CDispatch b # post)) ?sT = Some (Inl ?e, s1)"
    by simp
  then have "callReducer (Suc ?N) (currentReducer s) (currentState s) action ?sT
      = Some (Inl ?e, s1)"
    unfolding assms(4) by (simp add: callReducer_def andThen_def)
  from dispatch_reducer_throws[OF assms(1,2,3) this] show ?thesis .
qed

lemma listener_dispatch_carried_out:
  assumes "\<not> isDispatching s" and "isPlainObject b" and "getProp b ''type'' \<noteq> VUndefined"
    and "callReducer n (currentReducer s) (currentState s) b
           (s\<lparr>notified := notified s @ [ident], isDispatching := True\<rparr>) = Some (Inr v, s1)"
  shows "callListener (Suc (Suc (Suc (Suc n)))) (Listener ident (CDispatch b # cs)) s =
     andThen (notify n (nextListeners s) 0
                (s\<lparr>notified := notified s @ [ident], currentReducer := currentReducer s1,
                   currentState := v, currentListeners := nextListeners s\<rparr>))
       (\<lambda>u s5. runScript (Suc (Suc n)) cs s5)"
proof -
  let ?s0 = "s\<lparr>notified := notified s @ [ident]\<rparr>"
  have F: "\<not> isDispatching ?s0" using assms(1) by simp
  have R: "callReducer n (currentReducer ?s0) (currentState ?s0) b
      (?s0\<lparr>isDispatching := True\<rparr>) = Some (Inr v, s1)"
    using assms(4) by simp
  from dispatch_reduced[OF assms(2,3) F R]
  have "dispatch (Suc n) b ?s0 =
     andThen (notify n (nextListeners s) 0
                (s\<lparr>notified := notified s @ [ident], currentReducer := currentReducer s1,
                   currentState := v, currentListeners := nextListeners s\<rparr>))
       (\<lambda>u s5. Some (Inr b, s5))"
    by simp
  with listener_dispatch[of "Suc n" ident b cs s] show ?thesis
    by (auto simp: andThen_def split: option.splits sum.splits prod.splits)
qed

lemma notify_Suc:
  "notify (Suc n) a i s =
     (if i < length (arrays s a)
      then andThen (callListener n (arrays s a ! i) s) (\<lambda>u s1. notify n a (Suc i) s1)
      else Some (Inr VUndefined, s))"
  by (simp add: notify_def notifyBody_def callListener_def)

lemma lateNestingStore_reachable:
  "replaceReducer 9 (Fn lateNestingReducer) exampleStore
     = Some (Inl ReducersMayNotDispatch, lateNestingStore)"
proof -
  have G: "\<not> isDispatching lateNestingStore"
    "currentReducer lateNestingStore = Reducer ([CTry CGetState] @ CDispatch INC # []) (\<lambda>st action. Inr st)"
    by (simp_all add: lateNestingStore_def exampleStore_def lateNestingReducer_def)
  have P: "runScript 3 [CTry CGetState] (lateNestingStore\<lparr>isDispatching := True\<rparr>)
      = Some (Inr VUndefined, lateNestingStore\<lparr>isDispatching := True\<rparr>)"
    by (simp add: runScript_def eval_nat_numeral andThen_def getState_def)
  from nested_dispatch_uncaught[OF REPLACE_ok G P]
  have "dispatch 8 REPLACE lateNestingStore = Some (Inl ReducersMayNotDispatch, lateNestingStore)"
    by (simp add: INC_def eval_nat_numeral)
  then show ?thesis
    using replaceReducer_dispatch[of 8 lateNestingReducer exampleStore]
    by (simp add: lateNestingStore_def andThen_def eval_nat_numeral)
qed

lemma uncaught_command:
  assumes "isPlainObject action" and "getProp action ''type'' \<noteq> VUndefined"
    and "\<not> isDispatching s"
    and "currentReducer s = Reducer (pre @ c # post) f"
    and "runScript k pre (s\<lparr>isDispatching := True\<rparr>) = Some (Inr u, s1)"
    and "runCmd j c s1 = Some (Inl e, s2)"
    and "Suc (Suc (length pre + Suc (k + j))) \<le> m"
  shows "dispatch m action s = Some (Inl e, s\<lparr>currentReducer := currentReducer s2\<rparr>)"
proof -
  let ?sT = "s\<lparr>isDispatching := True\<rparr>"
  let ?N = "length pre + Suc (k + j)"
  from assms(5) have X: "exec k (RunScript pre) ?sT = Some (Inr u, s1)"
    by (simp add: runScript_def)
  have P: "exec ?N (RunScript pre) ?sT = Some (Inr u, s1)"
    using exec_more_fuel[OF X, of ?N] by simp
  from assms(6) have Y: "exec j (RunCmd c) s1 = Some (Inl e, s2)"
    by (simp add: runCmd_def)
  have "exec (k + j) (RunCmd c) s1 = Some (Inl e, s2)"
    using exec_more_fuel[OF Y, of "k + j"] by simp
  then have "exec (Suc (k + j)) (RunScript (c # post)) s1 = Some (Inl e, s2)"
    by (simp add: andThen_def)
  with runScript_append[of pre "k + j" "c # post" ?sT] P
  have "exec ?N (RunScript (pre @ c # post)) ?sT = Some (Inl e, s2)"
    by simp
  then have "callReducer (Suc ?N) (currentReducer s) (currentState s) action ?sT
      = Some (Inl e, s2)"
    unfolding assms(4) by (simp add: callReducer_def andThen_def)
  from dispatch_reducer_throws[OF assms(1,2,3) this]
  have "exec (Suc (Suc ?N)) (Dispatch action) s
      = Some (Inl e, s\<lparr>currentReducer := currentReducer s2\<rparr>)"
    by (simp add: dispatch_def)
  from exec_more_fuel[OF this assms(7)] show ?thesis by (simp add: dispatch_def)
qed

lemma command_dispatch_carried_out:
  assumes "\<not> isDispatching s" and "isPlainObject b" and "getProp b ''type'' \<noteq> VUndefined"
    and "callReducer n (currentReducer s) (currentState s) b (s\<lparr>isDispatching := True\<rparr>)
           = Some (Inr v, s1)"
  shows "runCmd (Suc (Suc n)) (CDispatch b) s =
     andThen (notify n (nextListeners s) 0
                (s\<lparr>currentReducer := currentReducer s1, currentState := v,
                   currentListeners := nextListeners s\<rparr>))
       (\<lambda>u s5. Some (Inr b, s5))"
  using dispatch_reduced[OF assms(2,3,1,4)] by (simp add: runCmd_def dispatch_def)

text \<open>
  C5, amended. \<^verbatim>\<open>dispatch\<close> throws and leaves the store unchanged when the action is not a
  plain object, when its type is undefined, or when the flag is set (the checks are made in
  this order). Otherwise the reducer is called with the flag set, and the flag stays set,
  and the state, the registry and the log stay as they are, through every call the reducer
  makes: a dispatch it issues is rejected and changes nothing, and when the reducer does not
  catch that error (or the error of any other command), wherever in its body the command is,
  the outer dispatch throws it and leaves the state and the registry unchanged. With none of
  the three conditions, a dispatch throws only what the reducer or a listener throws. The
  notification pass starts with the flag clear, every call leaves the flag as it found it, and each step of the pass calls one
  listener in the store the step before left: a dispatch of a well-formed action issued by a
  listener, or by any command run while the flag is clear, is not rejected, the reducer is
  applied and the state replaced.
\<close>

theorem dispatch_raises:
  "(\<not> isPlainObject action \<or> getProp action ''type'' = VUndefined \<or> isDispatching s \<longrightarrow>
      dispatch (Suc n) action s =
        Some (Inl (if \<not> isPlainObject action then ActionsMustBePlainObjects
                   else if getProp action ''type'' = VUndefined then UndefinedActionType
                   else ReducersMayNotDispatch), s)) \<and>
   (isPlainObject action \<and> getProp action ''type'' \<noteq> VUndefined \<and> \<not> isDispatching s \<longrightarrow>
      (\<forall>e s'. dispatch (Suc n) action s = Some (Inl e, s') \<longrightarrow>
         (\<exists>s1. callReducer n (currentReducer s) (currentState s) action
                 (s\<lparr>isDispatching := True\<rparr>) = Some (Inl e, s1)) \<or>
         (\<exists>v s1. callReducer n (currentReducer s) (currentState s) action
                 (s\<lparr>isDispatching := True\<rparr>) = Some (Inr v, s1) \<and>
               notify n (nextListeners s) 0
                 (s\<lparr>currentReducer := currentReducer s1, currentState := v,
                    currentListeners := nextListeners s\<rparr>) = Some (Inl e, s'))) \<and>
      (\<forall>v s1. callReducer n (currentReducer s) (currentState s) action
                 (s\<lparr>isDispatching := True\<rparr>) = Some (Inr v, s1) \<longrightarrow>
         dispatch (Suc n) action s =
           andThen (notify n (nextListeners s) 0
                      (s\<lparr>currentReducer := currentReducer s1, currentState := v,
                         currentListeners := nextListeners s\<rparr>))
             (\<lambda>u s5. Some (Inr action, s5)) \<and>
         \<not> isDispatching (s\<lparr>currentReducer := currentReducer s1, currentState := v,
                              currentListeners := nextListeners s\<rparr>)) \<and>
      (\<forall>pre b post f k u s1.
         currentReducer s = Reducer (pre @ CDispatch b # post) f \<and>
         runScript k pre (s\<lparr>isDispatching := True\<rparr>) = Some (Inr u, s1) \<longrightarrow>
         dispatch (Suc (Suc (length pre + Suc (Suc k)))) action s =
           Some (Inl (if \<not> isPlainObject b then ActionsMustBePlainObjects
                      else if getProp b ''type'' = VUndefined then UndefinedActionType
                      else ReducersMayNotDispatch),
                 s\<lparr>currentReducer := currentReducer s1\<rparr>)) \<and>
      (\<forall>pre c post f k u s1 j e s2 m.
         currentReducer s = Reducer (pre @ c # post) f \<and>
         runScript k pre (s\<lparr>isDispatching := True\<rparr>) = Some (Inr u, s1) \<and>
         runCmd j c s1 = Some (Inl e, s2) \<and>
         Suc (Suc (length pre + Suc (k + j))) \<le> m \<longrightarrow>
         dispatch m action s = Some (Inl e, s\<lparr>currentReducer := currentReducer s2\<rparr>))) \<and>
   (isDispatching s \<longrightarrow>
      (\<forall>c r s'. reducerCall c \<and> exec n c s = Some (r, s') \<longrightarrow>
         s' = s\<lparr>currentReducer := currentReducer s'\<rparr>) \<and>
      (\<forall>b. runCmd (Suc (Suc n)) (CDispatch b) s =
             Some (Inl (if \<not> isPlainObject b then ActionsMustBePlainObjects
                        else if getProp b ''type'' = VUndefined then UndefinedActionType
                        else ReducersMayNotDispatch), s) \<and>
           runCmd (Suc (Suc (Suc n))) (CTry (CDispatch b)) s = Some (Inr VUndefined, s))) \<and>
   (\<forall>c r s'. exec n c s = Some (r, s') \<longrightarrow> isDispatching s' = isDispatching s) \<and>
   (\<forall>a i. notify (Suc n) a i s =
      (if i < length (arrays s a)
       then andThen (callListener n (arrays s a ! i) s) (\<lambda>u s1. notify n a (Suc i) s1)
       else Some (Inr VUndefined, s))) \<and>
   (\<forall>b v s1.
      \<not> isDispatching s \<and> isPlainObject b \<and> getProp b ''type'' \<noteq> VUndefined \<and>
      callReducer n (currentReducer s) (currentState s) b (s\<lparr>isDispatching := True\<rparr>)
        = Some (Inr v, s1) \<longrightarrow>
      runCmd (Suc (Suc n)) (CDispatch b) s =
        andThen (notify n (nextListeners s) 0
                   (s\<lparr>currentReducer := currentReducer s1, currentState := v,
                      currentListeners := nextListeners s\<rparr>))
          (\<lambda>u s5. Some (Inr b, s5))) \<and>
   (\<forall>ident b cs v s1.
      \<not> isDispatching s \<and> isPlainObject b \<and> getProp b ''type'' \<noteq> VUndefined \<and>
      callReducer n (currentReducer s) (currentState s) b
        (s\<lparr>notified := notified s @ [ident], isDispatching := True\<rparr>) = Some (Inr v, s1) \<longrightarrow>
      callListener (Suc (Suc (Suc (Suc n)))) (Listener ident (CDispatch b # cs)) s =
        andThen (notify n (nextListeners s) 0
                   (s\<lparr>notified := notified s @ [ident], currentReducer := currentReducer s1,
                      currentState := v, currentListeners := nextListeners s\<rparr>))
          (\<lambda>u s5. runScript (Suc (Suc n)) cs s5))"
proof (intro conjI allI impI)
  assume "\<not> isPlainObject action \<or> getProp action ''type'' = VUndefined \<or> isDispatching s"
  then show "dispatch (Suc n) action s =
        Some (Inl (if \<not> isPlainObject action then ActionsMustBePlainObjects
                   else if getProp action ''type'' = VUndefined then UndefinedActionType
                   else ReducersMayNotDispatch), s)"
    by (rule dispatch_guard)
next
  fix e s'
  assume "isPlainObject action \<and> getProp action ''type'' \<noteq> VUndefined \<and> \<not> isDispatching s"
    and "dispatch (Suc n) action s = Some (Inl e, s')"
  then show "(\<exists>s1. callReducer n (currentReducer s) (currentState s) action
                 (s\<lparr>isDispatching := True\<rparr>) = Some (Inl e, s1)) \<or>
         (\<exists>v s1. callReducer n (currentReducer s) (currentState s) action
                 (s\<lparr>isDispatching := True\<rparr>) = Some (Inr v, s1) \<and>
               notify n (nextListeners s) 0
                 (s\<lparr>currentReducer := currentReducer s1, currentState := v,
                    currentListeners := nextListeners s\<rparr>) = Some (Inl e, s'))"
    using dispatch_failure_cases[of action s n e s'] by blast
next
  fix v s1
  assume G: "isPlainObject action \<and> getProp action ''type'' \<noteq> VUndefined \<and> \<not> isDispatching s"
    and R: "callReducer n (currentReducer s) (currentState s) action
                 (s\<lparr>isDispatching := True\<rparr>) = Some (Inr v, s1)"
  from G R show "dispatch (Suc n) action s =
           andThen (notify n (nextListeners s) 0
                      (s\<lparr>currentReducer := currentReducer s1, currentState := v,
                         currentListeners := nextListeners s\<rparr>))
             (\<lambda>u s5. Some (Inr action, s5))"
    using dispatch_reduced[of action s n v s1] by blast
  from G show "\<not> isDispatching (s\<lparr>currentReducer := currentReducer s1, currentState := v,
                              currentListeners := nextListeners s\<rparr>)"
    by simp
next
  fix pre b post f k u s1
  assume G: "isPlainObject action \<and> getProp action ''type'' \<noteq> VUndefined \<and> \<not> isDispatching s"
    and R: "currentReducer s = Reducer (pre @ CDispatch b # post) f \<and>
         runScript k pre (s\<lparr>isDispatching := True\<rparr>) = Some (Inr u, s1)"
  then show "dispatch (Suc (Suc (length pre + Suc (Suc k)))) action s =
           Some (Inl (if \<not> isPlainObject b then ActionsMustBePlainObjects
                      else if getProp b ''type'' = VUndefined then UndefinedActionType
                      else ReducersMayNotDispatch),
                 s\<lparr>currentReducer := currentReducer s1\<rparr>)"
    using nested_dispatch_uncaught[of action s pre b post f k u s1] by blast
next
  fix pre c post f k u s1 j e s2 m
  assume G: "isPlainObject action \<and> getProp action ''type'' \<noteq> VUndefined \<and> \<not> isDispatching s"
    and R: "currentReducer s = Reducer (pre @ c # post) f \<and>
         runScript k pre (s\<lparr>isDispatching := True\<rparr>) = Some (Inr u, s1) \<and>
         runCmd j c s1 = Some (Inl e, s2) \<and>
         Suc (Suc (length pre + Suc (k + j))) \<le> m"
  then show "dispatch m action s = Some (Inl e, s\<lparr>currentReducer := currentReducer s2\<rparr>)"
    using uncaught_command[of action s pre c post f k u s1 j e s2 m] by blast
next
  fix c r s'
  assume "isDispatching s" and "reducerCall c \<and> exec n c s = Some (r, s')"
  then show "s' = s\<lparr>currentReducer := currentReducer s'\<rparr>"
    using reducer_time[of s c n r s'] by blast
next
  fix b
  assume D: "isDispatching s"
  then show "runCmd (Suc (Suc n)) (CDispatch b) s =
             Some (Inl (if \<not> isPlainObject b then ActionsMustBePlainObjects
                        else if getProp b ''type'' = VUndefined then UndefinedActionType
                        else ReducersMayNotDispatch), s)"
    by (rule nested_dispatch_rejected)
  from D show "runCmd (Suc (Suc (Suc n))) (CTry (CDispatch b)) s = Some (Inr VUndefined, s)"
    by (rule nested_dispatch_caught)
next
  fix c r s'
  assume "exec n c s = Some (r, s')"
  then show "isDispatching s' = isDispatching s" by (rule exec_flag)
next
  fix a i
  show "notify (Suc n) a i s =
      (if i < length (arrays s a)
       then andThen (callListener n (arrays s a ! i) s) (\<lambda>u s1. notify n a (Suc i) s1)
       else Some (Inr VUndefined, s))"
    by (rule notify_Suc)
next
  fix b v s1
  assume "\<not> isDispatching s \<and> isPlainObject b \<and> getProp b ''type'' \<noteq> VUndefined \<and>
      callReducer n (currentReducer s) (currentState s) b (s\<lparr>isDispatching := True\<rparr>)
        = Some (Inr v, s1)"
  then show "runCmd (Suc (Suc n)) (CDispatch b) s =
        andThen (notify n (nextListeners s) 0
                   (s\<lparr>currentReducer := currentReducer s1, currentState := v,
                      currentListeners := nextListeners s\<rparr>))
          (\<lambda>u s5. Some (Inr b, s5))"
    using command_dispatch_carried_out[of s b n v s1] by blast
next
  fix ident b cs v s1
  assume "\<not> isDispatching s \<and> isPlainObject b \<and> getProp b ''type'' \<noteq> VUndefined \<and>
      callReducer n (currentReducer s) (currentState s) b
        (s\<lparr>notified := notified s @ [ident], isDispatching := True\<rparr>) = Some (Inr v, s1)"
  then show "callListener (Suc (Suc (Suc (Suc n)))) (Listener ident (CDispatch b # cs)) s =
        andThen (notify n (nextListeners s) 0
                   (s\<lparr>notified := notified s @ [ident], currentReducer := currentReducer s1,
                      currentState := v, currentListeners := nextListeners s\<rparr>))
          (\<lambda>u s5. runScript (Suc (Suc n)) cs s5)"
    using listener_dispatch_carried_out[of s b n ident v s1 cs] by blast
qed

theorem dispatch_raises_witness:
  "\<not> isPlainObject (VNum 3) \<and>
   dispatch 1 (VNum 3) nestingStore = Some (Inl ActionsMustBePlainObjects, nestingStore) \<and>
   isPlainObject INC \<and> getProp INC ''type'' \<noteq> VUndefined \<and> \<not> isDispatching nestingStore \<and>
   dispatch 5 INC nestingStore = Some (Inl ReducersMayNotDispatch, nestingStore) \<and>
   returned (callReducer 4 (currentReducer nestingStore) (currentState nestingStore) INC
               (nestingStore\<lparr>isDispatching := True\<rparr>)) = Some (Inl ReducersMayNotDispatch) \<and>
   \<not> isDispatching lateNestingStore \<and>
   dispatch 8 INC lateNestingStore = Some (Inl ReducersMayNotDispatch, lateNestingStore) \<and>
   isDispatching (exampleStore\<lparr>isDispatching := True\<rparr>) \<and>
   runCmd 2 (CDispatch INC) (exampleStore\<lparr>isDispatching := True\<rparr>)
     = Some (Inl ReducersMayNotDispatch, exampleStore\<lparr>isDispatching := True\<rparr>) \<and>
   runCmd 2 (CDispatch (VNum 3)) (exampleStore\<lparr>isDispatching := True\<rparr>)
     = Some (Inl ActionsMustBePlainObjects, exampleStore\<lparr>isDispatching := True\<rparr>) \<and>
   runCmd 3 (CTry (CDispatch INC)) (exampleStore\<lparr>isDispatching := True\<rparr>)
     = Some (Inr VUndefined, exampleStore\<lparr>isDispatching := True\<rparr>) \<and>
   map_option (\<lambda>x. currentState (snd x))
     (exec 3 (ReplaceReducer (Fn doubler)) (exampleStore\<lparr>isDispatching := True\<rparr>))
     = Some (VNum 0) \<and>
   dispatch 9 INC exampleStore =
     andThen (notify 8 1 0 (exampleStore\<lparr>currentReducer := counter, currentState := VNum 1,
                                           currentListeners := 1\<rparr>))
       (\<lambda>u s5. Some (Inr INC, s5)) \<and>
   map_option (\<lambda>x. isDispatching (snd x)) (dispatch 9 INC redispatchStore) = Some False \<and>
   callListener 12 reentrantListener exampleStore =
     andThen (notify 8 1 0 (exampleStore\<lparr>notified := [9], currentReducer := counter,
                                           currentState := VNum 1, currentListeners := 1\<rparr>))
       (\<lambda>u s5. runScript 10 [] s5) \<and>
   stateAfter (callListener 12 reentrantListener exampleStore) = Some (VNum 1) \<and>
   returned (dispatch 9 INC catchingStore) = Some (Inr INC) \<and>
   stateAfter (dispatch 9 INC catchingStore) = Some (VNum 7) \<and>
   dispatch 5 INC (exampleStore\<lparr>currentReducer := Reducer [CThrow ''no''] (\<lambda>st a. Inr st)\<rparr>)
     = Some (Inl (UserError ''no''),
             exampleStore\<lparr>currentReducer := Reducer [CThrow ''no''] (\<lambda>st a. Inr st)\<rparr>) \<and>
   runCmd 10 (CDispatch INC) exampleStore =
     andThen (notify 8 1 0 (exampleStore\<lparr>currentReducer := counter, currentState := VNum 1,
                                           currentListeners := 1\<rparr>))
       (\<lambda>u s5. Some (Inr INC, s5))"
proof -
  let ?sT = "exampleStore\<lparr>isDispatching := True\<rparr>"
  have G: "isPlainObject INC" "getProp INC ''type'' \<noteq> VUndefined"
    "\<not> isDispatching nestingStore" "\<not> isPlainObject (VNum 3)"
    by code_simp+
  have "replaceReducer 9 (Fn nestingReducer) counterStore =
          Some (Inl ReducersMayNotDispatch, counterStore\<lparr>currentReducer := nestingReducer\<rparr>)"
    by (simp add: replaceReducer_def eval_nat_numeral replaceReducerBody_def andThen_def
        dispatchBody_def ActionTypes_REPLACE_def nestingReducer_def INC_def
        counterStore_def createStoreBase_def dispatch_def initialStore_def counter_def
        ActionTypes_INIT_def notifyBody_def Let_def)
  then have P: "currentReducer nestingStore = Reducer ([] @ CDispatch INC # []) (\<lambda>st action. Inr st)"
    by (simp add: nestingStore_def nestingReducer_def)
  note A0 = dispatch_raises[where action="VNum 3" and s=nestingStore and n=0, THEN conjunct1,
      rule_format, OF disjI1[OF G(4)]]
  from A0 G(4) have A: "dispatch 1 (VNum 3) nestingStore
      = Some (Inl ActionsMustBePlainObjects, nestingStore)" by simp
  have "runScript 1 [] (nestingStore\<lparr>isDispatching := True\<rparr>)
      = Some (Inr VUndefined, nestingStore\<lparr>isDispatching := True\<rparr>)"
    by (simp add: runScript_def)
  note B0 = dispatch_raises[where action=INC and s=nestingStore and n=0, THEN conjunct2,
      THEN conjunct1, rule_format, OF conjI[OF G(1) conjI[OF G(2) G(3)]], THEN conjunct2,
      THEN conjunct2, THEN conjunct1, rule_format, OF conjI[OF P this]]
  from B0 G have B: "dispatch 5 INC nestingStore = Some (Inl ReducersMayNotDispatch, nestingStore)"
    by (simp add: eval_nat_numeral)
  have C: "returned (callReducer 4 (currentReducer nestingStore) (currentState nestingStore)
       INC (nestingStore\<lparr>isDispatching := True\<rparr>)) = Some (Inl ReducersMayNotDispatch)"
    by code_simp
  have GL: "\<not> isDispatching lateNestingStore"
    "currentReducer lateNestingStore =
       Reducer ([CTry CGetState] @ CDispatch INC # []) (\<lambda>st action. Inr st)"
    by (simp_all add: lateNestingStore_def exampleStore_def lateNestingReducer_def)
  have PL: "runScript 3 [CTry CGetState] (lateNestingStore\<lparr>isDispatching := True\<rparr>)
      = Some (Inr VUndefined, lateNestingStore\<lparr>isDispatching := True\<rparr>)"
    by (simp add: runScript_def eval_nat_numeral andThen_def getState_def)
  note D0 = dispatch_raises[where action=INC and s=lateNestingStore and n=0, THEN conjunct2,
      THEN conjunct1, rule_format, OF conjI[OF G(1) conjI[OF G(2) GL(1)]], THEN conjunct2,
      THEN conjunct2, THEN conjunct1, rule_format, OF conjI[OF GL(2) PL]]
  from D0 G have D: "dispatch 8 INC lateNestingStore
      = Some (Inl ReducersMayNotDispatch, lateNestingStore)"
    by (simp add: eval_nat_numeral)
  have FT: "isDispatching ?sT" by simp
  note E0 = dispatch_raises[where s="?sT" and n=0, THEN conjunct2, THEN conjunct2,
      THEN conjunct1, rule_format, OF FT, THEN conjunct2, rule_format]
  from E0[of INC] G have E1: "runCmd 2 (CDispatch INC) ?sT = Some (Inl ReducersMayNotDispatch, ?sT)"
    "runCmd 3 (CTry (CDispatch INC)) ?sT = Some (Inr VUndefined, ?sT)"
    by (simp_all add: eval_nat_numeral)
  from E0[of "VNum 3"] have E2: "runCmd 2 (CDispatch (VNum 3)) ?sT
      = Some (Inl ActionsMustBePlainObjects, ?sT)"
    by (simp add: eval_nat_numeral)
  have X: "exec 3 (ReplaceReducer (Fn doubler)) ?sT
      = Some (Inl ReducersMayNotDispatch, ?sT\<lparr>currentReducer := doubler\<rparr>)"
    by (simp add: eval_nat_numeral replaceReducerBody_def dispatchBody_def andThen_def
        ActionTypes_REPLACE_def)
  have RC: "reducerCall (ReplaceReducer (Fn doubler))" by simp
  note H0 = dispatch_raises[where s="?sT" and n=3, THEN conjunct2, THEN conjunct2,
      THEN conjunct1, rule_format, OF FT, THEN conjunct1, rule_format, OF conjI[OF RC X]]
  have "currentState (?sT\<lparr>currentReducer := doubler\<rparr>) = VNum 0"
    by (subst H0) (simp add: exampleStore_def)
  with X have H: "map_option (\<lambda>x. currentState (snd x))
     (exec 3 (ReplaceReducer (Fn doubler)) ?sT) = Some (VNum 0)" by simp
  have GE: "\<not> isDispatching exampleStore" by (simp add: exampleStore_def)
  have RE: "callReducer 8 (currentReducer exampleStore) (currentState exampleStore) INC ?sT
      = Some (Inr (VNum 1), ?sT)"
    by (simp add: exampleStore_def counter_def INC_def eval_nat_numeral callReducer_pure)
  have FE: "nextListeners exampleStore = 1" "currentReducer ?sT = counter"
    by (simp_all add: exampleStore_def)
  note I0 = dispatch_raises[where action=INC and s=exampleStore and n=8, THEN conjunct2,
      THEN conjunct1, rule_format, OF conjI[OF G(1) conjI[OF G(2) GE]], THEN conjunct2,
      THEN conjunct1, rule_format, OF RE, THEN conjunct1]
  have I: "dispatch 9 INC exampleStore =
     andThen (notify 8 1 0 (exampleStore\<lparr>currentReducer := counter, currentState := VNum 1,
                                           currentListeners := 1\<rparr>))
       (\<lambda>u s5. Some (Inr INC, s5))"
    using I0 unfolding FE by (simp add: eval_nat_numeral)
  have "case dispatch 9 INC redispatchStore of Some (r, s') \<Rightarrow> True | None \<Rightarrow> False"
    by code_simp
  then obtain r s' where J1: "exec 9 (Dispatch INC) redispatchStore = Some (r, s')"
    by (auto simp: dispatch_def split: option.splits)
  have "\<not> isDispatching redispatchStore" by code_simp
  with dispatch_raises[where s=redispatchStore and n=9, THEN conjunct2, THEN conjunct2,
      THEN conjunct2, THEN conjunct1, rule_format, OF J1]
  have "\<not> isDispatching s'" by simp
  with J1 have J: "map_option (\<lambda>x. isDispatching (snd x)) (dispatch 9 INC redispatchStore)
      = Some False"
    by (simp add: dispatch_def)
  have RL: "callReducer 8 (currentReducer exampleStore) (currentState exampleStore) INC
      (exampleStore\<lparr>notified := notified exampleStore @ [9], isDispatching := True\<rparr>)
      = Some (Inr (VNum 1),
          exampleStore\<lparr>notified := notified exampleStore @ [9], isDispatching := True\<rparr>)"
    by (simp add: exampleStore_def counter_def INC_def eval_nat_numeral callReducer_pure)
  note K0 = dispatch_raises[where s=exampleStore and n=8, THEN conjunct2, THEN conjunct2,
      THEN conjunct2, THEN conjunct2, THEN conjunct2, THEN conjunct2, rule_format,
      OF conjI[OF GE conjI[OF G(1) conjI[OF G(2) RL]]], of "[]"]
  have FK: "currentReducer (exampleStore\<lparr>notified := notified exampleStore @ [9],
       isDispatching := True\<rparr>) = counter"
    "notified exampleStore @ [9] = [9]"
    "Suc (Suc (Suc (Suc 8))) = (12::nat)" "Suc (Suc 8) = (10::nat)"
    by (simp_all add: exampleStore_def)
  have K: "callListener 12 reentrantListener exampleStore =
     andThen (notify 8 1 0 (exampleStore\<lparr>notified := [9], currentReducer := counter,
                                           currentState := VNum 1, currentListeners := 1\<rparr>))
       (\<lambda>u s5. runScript 10 [] s5)"
    using K0[unfolded FK(1), unfolded FK(2) FE(1), unfolded FK(3), unfolded FK(4)]
    unfolding reentrantListener_def .
  have M: "stateAfter (callListener 12 reentrantListener exampleStore) = Some (VNum 1)"
    "returned (dispatch 9 INC catchingStore) = Some (Inr INC)"
    "stateAfter (dispatch 9 INC catchingStore) = Some (VNum 7)"
    by code_simp+
  let ?sX = "exampleStore\<lparr>currentReducer := Reducer [CThrow ''no''] (\<lambda>st a. Inr st)\<rparr>"
  have GX: "\<not> isDispatching ?sX"
    "currentReducer ?sX = Reducer ([] @ CThrow ''no'' # []) (\<lambda>st a. Inr st)"
    by (simp_all add: exampleStore_def)
  have PX: "runScript 1 [] (?sX\<lparr>isDispatching := True\<rparr>)
      = Some (Inr VUndefined, ?sX\<lparr>isDispatching := True\<rparr>)"
    "runCmd 1 (CThrow ''no'') (?sX\<lparr>isDispatching := True\<rparr>)
      = Some (Inl (UserError ''no''), ?sX\<lparr>isDispatching := True\<rparr>)"
    by (simp_all add: runScript_def runCmd_def)
  have LX: "Suc (Suc (length ([]::cmd list) + Suc (1 + 1))) \<le> (5::nat)" by simp
  note N0 = dispatch_raises[where action=INC and s="?sX" and n=0, THEN conjunct2,
      THEN conjunct1, rule_format, OF conjI[OF G(1) conjI[OF G(2) GX(1)]], THEN conjunct2,
      THEN conjunct2, THEN conjunct2, rule_format,
      OF conjI[OF GX(2) conjI[OF PX(1) conjI[OF PX(2) LX]]]]
  have N: "dispatch 5 INC ?sX = Some (Inl (UserError ''no''), ?sX)"
    using N0 by simp
  note Q0 = dispatch_raises[where s=exampleStore and n=8, THEN conjunct2, THEN conjunct2,
      THEN conjunct2, THEN conjunct2, THEN conjunct2, THEN conjunct1, rule_format,
      OF conjI[OF GE conjI[OF G(1) conjI[OF G(2) RE]]]]
  have FQ: "Suc (Suc 8) = (10::nat)" by simp
  have Q: "runCmd 10 (CDispatch INC) exampleStore =
     andThen (notify 8 1 0 (exampleStore\<lparr>currentReducer := counter, currentState := VNum 1,
                                           currentListeners := 1\<rparr>))
       (\<lambda>u s5. Some (Inr INC, s5))"
    using Q0[unfolded FE, unfolded FQ] .
  show ?thesis
    using G A B C GL(1) D FT E1 E2 H I J K M N Q by blast
qed

end
